theory Spec2Isabelle
  imports Main
begin

section \<open>Values of the host language\<close>

text \<open>
  \<^verbatim>\<open>StdIO.ts\<close> reads whatever \<^verbatim>\<open>JSON.parse\<close> returns through an unchecked cast
  (\<^verbatim>\<open>JSON.parse(line) as Request\<close>), so the model keeps the untyped values: the cast
  has no run-time content. \<open>JUndefined\<close> is what a missing index or property reads as.

  A number of the host language is a double. \<open>JNum i\<close> is the number with the integer
  value \<open>i\<close>; it stands for a number of the program when \<open>i\<close> is a safe integer
  (\<open>safe_integer\<close>), and there the decimal digits of \<open>i\<close> are both its string
  conversion and its JSON text. Every other number is a \<open>JDouble\<close>: \<^verbatim>\<open>NaN\<close>, an infinity
  (\<open>Infinite True\<close> the negative one), or a finite number given by its sign and the
  decimal digits of its string conversion, \<open>Decimal negative s n\<close> for the number
  \<open>s \<times> 10\<^sup>n\<^sup>-\<^sup>k\<close> where \<open>s\<close> has \<open>k\<close> digits, the last not zero. A string is held as the
  bytes of its UTF-8 encoding.
\<close>

datatype double = NaN | Infinite bool | Decimal bool nat int

datatype js =
    JUndefined
  | JNull
  | JBool bool
  | JNum int
  | JDouble double
  | JStr string
  | JArr "js list"
  | JObj "(string \<times> js) list"

definition safe_integer :: "int \<Rightarrow> bool" where
  "safe_integer i = (- 9007199254740991 \<le> i \<and> i \<le> 9007199254740991)"

text \<open>
  The faults that \<^verbatim>\<open>handleRequest\<close> catches: its own two \<^verbatim>\<open>throw new Error\<close>, the
  \<^verbatim>\<open>TypeError\<close> of a property read on \<^verbatim>\<open>null\<close> or \<^verbatim>\<open>undefined\<close>, and whatever the provider
  throws or rejects with.
\<close>

datatype error =
    AgentNotBound
  | UnknownFunction js
  | TypeError
  | AgentError js

subsection \<open>Decimal numerals\<close>

definition digit_char :: "nat \<Rightarrow> char" where
  "digit_char d = char_of (48 + d)"

fun show_nat :: "nat \<Rightarrow> string" where
  "show_nat n = (if n < 10 then [digit_char n] else show_nat (n div 10) @ [digit_char (n mod 10)])"

declare show_nat.simps [simp del]

definition show_int :: "int \<Rightarrow> string" where
  "show_int i = (if i < 0 then CHR ''-'' # show_nat (nat (- i)) else show_nat (nat i))"

text \<open>
  \<^verbatim>\<open>Number::toString\<close> for a number that is not an integer of the safe range: the digits
  of \<open>s\<close> with zeros or a decimal point while \<open>0 < n \<le> 21\<close>, a fraction with leading zeros
  while \<open>-6 < n \<le> 0\<close>, and the exponent form otherwise.
\<close>

definition show_decimal :: "nat \<Rightarrow> int \<Rightarrow> string" where
  "show_decimal s n =
     (let ds = show_nat s; k = int (length ds) in
      if k \<le> n \<and> n \<le> 21 then ds @ replicate (nat (n - k)) CHR ''0''
      else if 0 < n \<and> n \<le> 21 then take (nat n) ds @ ''.'' @ drop (nat n) ds
      else if - 6 < n \<and> n \<le> 0 then ''0.'' @ replicate (nat (- n)) CHR ''0'' @ ds
      else (let e = (if 0 \<le> n - 1 then ''+'' else ''-'') @ show_nat (nat \<bar>n - 1\<bar>) in
            if k = 1 then ds @ ''e'' @ e
            else take 1 ds @ ''.'' @ drop 1 ds @ ''e'' @ e))"

fun show_double :: "double \<Rightarrow> string" where
  "show_double NaN = ''NaN''"
| "show_double (Infinite negative) = (if negative then ''-Infinity'' else ''Infinity'')"
| "show_double (Decimal negative s n) = (if negative then ''-'' else []) @ show_decimal s n"

subsection \<open>Property keys and property reads\<close>

definition join :: "string \<Rightarrow> string list \<Rightarrow> string" where
  "join sep xs = concat (case xs of [] \<Rightarrow> [] | y # ys \<Rightarrow> y # map (\<lambda>z. sep @ z) ys)"

text \<open>
  \<^verbatim>\<open>obj[v]\<close> converts \<^verbatim>\<open>v\<close> to a property key, which for the values here is its string
  conversion: an array joins its elements with commas, \<^verbatim>\<open>null\<close> and \<^verbatim>\<open>undefined\<close>
  elements as empty strings.
\<close>

fun ToPropertyKey :: "js \<Rightarrow> string" where
  "ToPropertyKey JUndefined = ''undefined''"
| "ToPropertyKey JNull = ''null''"
| "ToPropertyKey (JBool b) = (if b then ''true'' else ''false'')"
| "ToPropertyKey (JNum i) = show_int i"
| "ToPropertyKey (JDouble d) = show_double d"
| "ToPropertyKey (JStr s) = s"
| "ToPropertyKey (JArr xs) =
     join '','' (map (\<lambda>x. if x = JNull \<or> x = JUndefined then [] else ToPropertyKey x) xs)"
| "ToPropertyKey (JObj kvs) = ''[object Object]''"

text \<open>
  \<open>JObj kvs\<close> lists the own properties of an object in the order in which the object
  enumerates them, each key once. The value it holds for a key:
\<close>

definition own_property :: "(string \<times> js) list \<Rightarrow> string \<Rightarrow> js" where
  "own_property kvs k = (case map_of kvs k of None \<Rightarrow> JUndefined | Some v \<Rightarrow> v)"

text \<open>
  \<^verbatim>\<open>v[i]\<close>, as in \<^verbatim>\<open>request[0]\<close>, \<^verbatim>\<open>request[1]\<close> and \<^verbatim>\<open>args[0]\<close>. A string is indexed by
  its bytes, which are its characters when it is ASCII.
\<close>

fun js_index :: "js \<Rightarrow> nat \<Rightarrow> error + js" where
  "js_index JUndefined i = Inl TypeError"
| "js_index JNull i = Inl TypeError"
| "js_index (JBool b) i = Inr JUndefined"
| "js_index (JNum n) i = Inr JUndefined"
| "js_index (JDouble d) i = Inr JUndefined"
| "js_index (JStr s) i = Inr (if i < length s then JStr [s ! i] else JUndefined)"
| "js_index (JArr xs) i = Inr (if i < length xs then xs ! i else JUndefined)"
| "js_index (JObj kvs) i = Inr (own_property kvs (show_nat i))"

text \<open>
  \<^verbatim>\<open>v.name\<close>, as in \<^verbatim>\<open>request[1].func\<close> and \<^verbatim>\<open>request[1].args\<close>: neither name is a
  property of a boolean, a number, a string or an array.
\<close>

fun js_field :: "js \<Rightarrow> string \<Rightarrow> error + js" where
  "js_field JUndefined name = Inl TypeError"
| "js_field JNull name = Inl TypeError"
| "js_field (JObj kvs) name = Inr (own_property kvs name)"
| "js_field v name = Inr JUndefined"

subsection \<open>\<^verbatim>\<open>JSON.stringify\<close>\<close>

definition hex_char :: "nat \<Rightarrow> char" where
  "hex_char d = (if d < 10 then char_of (48 + d) else char_of (87 + d))"

abbreviation backslash :: char where "backslash \<equiv> CHR 0x5C"
abbreviation dquote :: char where "dquote \<equiv> CHR 0x22"
abbreviation newline :: char where "newline \<equiv> CHR 0x0A"

text \<open>
  A string is quoted with the double quote and the backslash escaped and every control
  character below \<^verbatim>\<open>0x20\<close> written as a short escape or as a backslash, \<^verbatim>\<open>u00\<close> and two
  hexadecimal digits; in particular a line feed inside a string is written as the two
  characters backslash and \<^verbatim>\<open>n\<close>.
\<close>

definition escape_char :: "char \<Rightarrow> string" where
  "escape_char c =
     (if c = CHR 0x08 then [backslash, CHR ''b'']
      else if c = CHR 0x09 then [backslash, CHR ''t'']
      else if c = CHR 0x0A then [backslash, CHR ''n'']
      else if c = CHR 0x0C then [backslash, CHR ''f'']
      else if c = CHR 0x0D then [backslash, CHR ''r'']
      else if c = dquote then [backslash, dquote]
      else if c = backslash then [backslash, backslash]
      else if (of_char c :: nat) < 32
        then [backslash, CHR ''u'', CHR ''0'', CHR ''0'',
              hex_char (of_char c div 16), hex_char (of_char c mod 16)]
      else [c])"

definition QuoteJSONString :: "string \<Rightarrow> string" where
  "QuoteJSONString s = dquote # concat (map escape_char s) @ [dquote]"

text \<open>
  The result is \<open>None\<close> where \<^verbatim>\<open>JSON.stringify\<close> returns \<^verbatim>\<open>undefined\<close>: an array prints
  such an element as \<^verbatim>\<open>null\<close>, an object leaves the property out. A number that is not
  finite is written as \<^verbatim>\<open>null\<close>, any other as its string conversion.
\<close>

fun JSON_stringify :: "js \<Rightarrow> string option" where
  "JSON_stringify JUndefined = None"
| "JSON_stringify JNull = Some ''null''"
| "JSON_stringify (JBool b) = Some (if b then ''true'' else ''false'')"
| "JSON_stringify (JNum i) = Some (show_int i)"
| "JSON_stringify (JDouble d) =
     Some (case d of Decimal negative s n \<Rightarrow> show_double d | _ \<Rightarrow> ''null'')"
| "JSON_stringify (JStr s) = Some (QuoteJSONString s)"
| "JSON_stringify (JArr xs) =
     Some (''['' @ join '',''
       (map (\<lambda>x. case JSON_stringify x of None \<Rightarrow> ''null'' | Some t \<Rightarrow> t) xs) @ '']'')"
| "JSON_stringify (JObj kvs) =
     Some (''{'' @ join '',''
       (concat (map (\<lambda>kv. case JSON_stringify (snd kv) of
                              None \<Rightarrow> []
                            | Some t \<Rightarrow> [QuoteJSONString (fst kv) @ '':'' @ t]) kvs)) @ ''}'')"

subsection \<open>\<^verbatim>\<open>JSON.parse\<close>\<close>

text \<open>
  \<^verbatim>\<open>JSON.parse\<close> is a function of the platform. The loop of \<^verbatim>\<open>handleInput\<close> below takes
  the decoder as a parameter, so that what is proved of the loop holds of every decoder.
  \<open>JSON_parse\<close> is a decoder for a part of JSON, used where a concrete line is decoded:
  it reads the JSON grammar with a number being a safe integer written without fraction
  and exponent, and a \<^verbatim>\<open>u\<close> escape naming a character below \<^verbatim>\<open>0x80\<close>. Where it returns a
  value, that is the value \<^verbatim>\<open>JSON.parse\<close> returns; it returns \<open>None\<close> on the texts that
  \<^verbatim>\<open>JSON.parse\<close> rejects and on the texts beyond this part.
\<close>

definition is_ws :: "char \<Rightarrow> bool" where
  "is_ws c = (c = CHR 0x20 \<or> c = CHR 0x09 \<or> c = CHR 0x0A \<or> c = CHR 0x0D)"

definition skip_ws :: "string \<Rightarrow> string" where
  "skip_ws s = dropWhile is_ws s"

definition is_digit :: "char \<Rightarrow> bool" where
  "is_digit c = (48 \<le> (of_char c :: nat) \<and> (of_char c :: nat) \<le> 57)"

definition digit_val :: "char \<Rightarrow> nat" where
  "digit_val c = of_char c - 48"

definition read_int :: "string \<Rightarrow> int" where
  "read_int ds = foldl (\<lambda>a d. 10 * a + int (digit_val d)) 0 ds"

definition parse_digits :: "string \<Rightarrow> (int \<times> string) option" where
  "parse_digits s =
     (case s of
        [] \<Rightarrow> None
      | c # r \<Rightarrow>
          if c = CHR ''0'' then Some (0, r)
          else if is_digit c then Some (read_int (takeWhile is_digit s), dropWhile is_digit s)
          else None)"

definition parse_number :: "string \<Rightarrow> (js \<times> string) option" where
  "parse_number s =
     (case s of
        [] \<Rightarrow> None
      | c # r \<Rightarrow>
          if c = CHR ''-''
          then (case parse_digits r of
                  None \<Rightarrow> None
                | Some (n, t) \<Rightarrow> if safe_integer n then Some (JNum (- n), t) else None)
          else (case parse_digits s of
                  None \<Rightarrow> None
                | Some (n, t) \<Rightarrow> if safe_integer n then Some (JNum n, t) else None))"

definition hex_val :: "char \<Rightarrow> nat option" where
  "hex_val c =
     (let n = (of_char c :: nat) in
      if 48 \<le> n \<and> n \<le> 57 then Some (n - 48)
      else if 97 \<le> n \<and> n \<le> 102 then Some (n - 87)
      else if 65 \<le> n \<and> n \<le> 70 then Some (n - 55)
      else None)"

definition unescape :: "char \<Rightarrow> char option" where
  "unescape e =
     (if e = dquote then Some dquote
      else if e = backslash then Some backslash
      else if e = CHR ''/'' then Some CHR ''/''
      else if e = CHR ''b'' then Some (CHR 0x08)
      else if e = CHR ''f'' then Some (CHR 0x0C)
      else if e = CHR ''n'' then Some (CHR 0x0A)
      else if e = CHR ''r'' then Some (CHR 0x0D)
      else if e = CHR ''t'' then Some (CHR 0x09)
      else None)"

definition unicode_escape :: "char \<Rightarrow> char \<Rightarrow> char \<Rightarrow> char \<Rightarrow> char option" where
  "unicode_escape a b c d =
     (case (hex_val a, hex_val b, hex_val c, hex_val d) of
        (Some x, Some y, Some z, Some w) \<Rightarrow>
          if x = 0 \<and> y = 0 \<and> z < 8 then Some (char_of (16 * z + w)) else None
      | _ \<Rightarrow> None)"

definition cons_chars :: "char \<Rightarrow> (string \<times> string) option \<Rightarrow> (string \<times> string) option" where
  "cons_chars c p = (case p of None \<Rightarrow> None | Some (t, r) \<Rightarrow> Some (c # t, r))"

text \<open>The characters of a string after its opening quote, up to the closing one.\<close>

fun parse_chars :: "string \<Rightarrow> (string \<times> string) option" where
  "parse_chars [] = None"
| "parse_chars [c] = (if c = dquote then Some ([], []) else None)"
| "parse_chars (c # e # r) =
     (if c = dquote then Some ([], e # r)
      else if c = backslash then
        (case unescape e of
           Some x \<Rightarrow> cons_chars x (parse_chars r)
         | None \<Rightarrow>
             if e = CHR ''u'' then
               (case r of
                  a # b # c' # d # r' \<Rightarrow>
                    (case unicode_escape a b c' d of
                       Some x \<Rightarrow> cons_chars x (parse_chars r')
                     | None \<Rightarrow> None)
                | _ \<Rightarrow> None)
             else None)
      else if (of_char c :: nat) < 32 then None
      else cons_chars c (parse_chars (e # r)))"

text \<open>
  A new property takes its place in the enumeration order of the object: keys that are
  array indices come first, in ascending order, the others follow in the order of their
  creation. A key that is already there keeps its place and takes the new value.
\<close>

definition array_index :: "string \<Rightarrow> int option" where
  "array_index k =
     (if k \<noteq> [] \<and> list_all is_digit k \<and> (k = ''0'' \<or> hd k \<noteq> CHR ''0'') \<and> read_int k < 4294967295
      then Some (read_int k) else None)"

fun obj_insert :: "string \<Rightarrow> js \<Rightarrow> (string \<times> js) list \<Rightarrow> (string \<times> js) list" where
  "obj_insert k v [] = [(k, v)]"
| "obj_insert k v ((k', v') # kvs) =
     (case array_index k of
        None \<Rightarrow> (k', v') # obj_insert k v kvs
      | Some i \<Rightarrow>
          (case array_index k' of
             None \<Rightarrow> (k, v) # (k', v') # kvs
           | Some j \<Rightarrow> if i < j then (k, v) # (k', v') # kvs else (k', v') # obj_insert k v kvs))"

definition obj_put :: "(string \<times> js) list \<Rightarrow> string \<times> js \<Rightarrow> (string \<times> js) list" where
  "obj_put kvs kv =
     (if fst kv \<in> fst ` set kvs
      then map (\<lambda>p. if fst p = fst kv then (fst p, snd kv) else p) kvs
      else obj_insert (fst kv) (snd kv) kvs)"

definition starts_with :: "string \<Rightarrow> string \<Rightarrow> bool" where
  "starts_with s p = (take (length p) s = p)"

text \<open>
  The recursion of the grammar runs on a counter that is set from the length of the text
  (\<open>JSON_parse\<close>), so that the functions are total; twice the length is more than the
  recursion ever needs. \<open>parse_elements\<close> reads the elements of an array after its opening
  bracket, \<open>parse_members\<close> the members of an object after its opening brace.
\<close>

fun parse_value :: "nat \<Rightarrow> string \<Rightarrow> (js \<times> string) option"
  and parse_elements :: "nat \<Rightarrow> string \<Rightarrow> (js list \<times> string) option"
  and parse_members :: "nat \<Rightarrow> string \<Rightarrow> ((string \<times> js) list \<times> string) option"
where
  "parse_value 0 s = None"
| "parse_value (Suc n) s =
     (case skip_ws s of
        [] \<Rightarrow> None
      | c # r \<Rightarrow>
          if c = CHR ''['' then
            (if starts_with (skip_ws r) '']'' then Some (JArr [], drop 1 (skip_ws r))
             else (case parse_elements n r of
                     None \<Rightarrow> None
                   | Some (vs, t) \<Rightarrow> Some (JArr vs, t)))
          else if c = CHR ''{'' then
            (if starts_with (skip_ws r) ''}'' then Some (JObj [], drop 1 (skip_ws r))
             else (case parse_members n r of
                     None \<Rightarrow> None
                   | Some (kvs, t) \<Rightarrow> Some (JObj (foldl obj_put [] kvs), t)))
          else if c = dquote then
            (case parse_chars r of None \<Rightarrow> None | Some (x, t) \<Rightarrow> Some (JStr x, t))
          else if starts_with (c # r) ''null'' then Some (JNull, drop 4 (c # r))
          else if starts_with (c # r) ''true'' then Some (JBool True, drop 4 (c # r))
          else if starts_with (c # r) ''false'' then Some (JBool False, drop 5 (c # r))
          else parse_number (c # r))"
| "parse_elements 0 s = None"
| "parse_elements (Suc n) s =
     (case parse_value n s of
        None \<Rightarrow> None
      | Some (v, r) \<Rightarrow>
          (case skip_ws r of
             [] \<Rightarrow> None
           | c # t \<Rightarrow>
               if c = CHR '','' then
                 (case parse_elements n t of
                    None \<Rightarrow> None
                  | Some (vs, u) \<Rightarrow> Some (v # vs, u))
               else if c = CHR '']'' then Some ([v], t)
               else None))"
| "parse_members 0 s = None"
| "parse_members (Suc n) s =
     (case skip_ws s of
        [] \<Rightarrow> None
      | q # r \<Rightarrow>
          if q \<noteq> dquote then None
          else
            (case parse_chars r of
               None \<Rightarrow> None
             | Some (k, t) \<Rightarrow>
                 (case skip_ws t of
                    [] \<Rightarrow> None
                  | c # u \<Rightarrow>
                      if c \<noteq> CHR '':'' then None
                      else
                        (case parse_value n u of
                           None \<Rightarrow> None
                         | Some (v, w) \<Rightarrow>
                             (case skip_ws w of
                                [] \<Rightarrow> None
                              | d # x \<Rightarrow>
                                  if d = CHR '','' then
                                    (case parse_members n x of
                                       None \<Rightarrow> None
                                     | Some (kvs, y) \<Rightarrow> Some ((k, v) # kvs, y))
                                  else if d = CHR ''}'' then Some ([(k, v)], x)
                                  else None)))))"

definition JSON_parse :: "string \<Rightarrow> js option" where
  "JSON_parse s =
     (case parse_value (2 * length s + 1) s of
        None \<Rightarrow> None
      | Some (v, r) \<Rightarrow> if skip_ws r = [] then Some v else None)"

section \<open>The capability provider\<close>

text \<open>
  A provider function returns a plain value or a thenable. \<^verbatim>\<open>handleRequest\<close> awaits a
  thenable, and \<^verbatim>\<open>cancelRequest\<close> asks whether it is an \<^verbatim>\<open>instanceof CancelablePromise\<close>;
  the number names the promise object.
\<close>

datatype handle = CancelablePromise nat | PlainPromise nat

datatype result = Value js | Thenable handle

text \<open>
  \<^verbatim>\<open>this.agent[funcName]\<close> finds a function or nothing; \<^verbatim>\<open>func.apply(this.agent, args)\<close>
  throws (\<open>Inl\<close>) or returns (\<open>Inr\<close>). What \<^verbatim>\<open>apply\<close> does with an argument value
  that is not a list is part of the function here. The provider is an external
  collaborator: its functions are taken as given maps from the arguments to the outcome
  of the call, and \<open>ident\<close> tells one provider object from another.
\<close>

record Agent =
  ident :: nat
  lookup :: "string \<Rightarrow> (js \<Rightarrow> error + result) option"

section \<open>The state of \<^verbatim>\<open>StdIO\<close>\<close>

type_synonym response = "js \<times> js"

datatype log_entry =
    FailedToParse string
  | ReceivedRequest js
  | SentResponse response
  | FailedToHandle error js

text \<open>
  The three fields of the class, then what its methods do to the world around it:
  the strings written to \<^verbatim>\<open>outStream\<close>, the entries of the logger, the calls of
  \<^verbatim>\<open>handleRequest\<close> that are suspended at \<^verbatim>\<open>await result\<close> (with the promise awaited, the
  request and \<^verbatim>\<open>response[0]\<close>; \<^verbatim>\<open>response[1]\<close> is still \<^verbatim>\<open>null\<close> there), the promises on
  which \<^verbatim>\<open>cancel()\<close> was called, and the listeners that \<^verbatim>\<open>bind\<close> registered (provider and
  event name).
\<close>

record stdio =
  buffer :: string
  ongoingRequests :: "string \<Rightarrow> handle option"
  agent :: "Agent option"
  outStream :: "string list"
  logger :: "log_entry list"
  suspended :: "(handle \<times> js \<times> js) list"
  cancelled :: "handle list"
  listeners :: "(nat \<times> string) list"

definition initial :: stdio where
  "initial = \<lparr> buffer = [], ongoingRequests = (\<lambda>k. None), agent = None, outStream = [],
     logger = [], suspended = [], cancelled = [], listeners = [] \<rparr>"

section \<open>\<^verbatim>\<open>sendResponse\<close>\<close>

text \<open>
  \<^verbatim>\<open>this.outStream.write(JSON.stringify(response) + "\n")\<close>: the response is an array of
  two elements, for which \<^verbatim>\<open>JSON.stringify\<close> always returns a string.
\<close>

definition encode :: "response \<Rightarrow> string" where
  "encode r =
     (case JSON_stringify (JArr [fst r, snd r]) of
        None \<Rightarrow> ''undefined''
      | Some t \<Rightarrow> t) @ [newline]"

definition sendResponse :: "response \<Rightarrow> stdio \<Rightarrow> stdio" where
  "sendResponse r s = s\<lparr>outStream := outStream s @ [encode r]\<rparr>"

text \<open>
  The callback that \<^verbatim>\<open>handleInput\<close> chains to each call of \<^verbatim>\<open>handleRequest\<close>: it runs
  once the call has returned its response.
\<close>

definition thenSend :: "response \<Rightarrow> stdio \<Rightarrow> stdio" where
  "thenSend r s = (sendResponse r s)\<lparr>logger := logger (sendResponse r s) @ [SentResponse r]\<rparr>"

section \<open>\<^verbatim>\<open>cancelRequest\<close>\<close>

definition request_func :: "js \<Rightarrow> error + js" where
  "request_func request =
     (case js_index request 1 of Inl e \<Rightarrow> Inl e | Inr d \<Rightarrow> js_field d ''func'')"

definition request_args :: "js \<Rightarrow> error + js" where
  "request_args request =
     (case js_index request 1 of Inl e \<Rightarrow> Inl e | Inr d \<Rightarrow> js_field d ''args'')"

text \<open>\<^verbatim>\<open>request[1].args[0]\<close>\<close>

definition request_target :: "js \<Rightarrow> error + js" where
  "request_target request =
     (case request_args request of Inl e \<Rightarrow> Inl e | Inr a \<Rightarrow> js_index a 0)"

fun is_cancelable :: "handle \<Rightarrow> bool" where
  "is_cancelable (CancelablePromise p) = True"
| "is_cancelable (PlainPromise p) = False"

text \<open>
  The registry is a plain object, so the id is used as a property key. An entry is a
  promise object, which is never falsy. (The properties that every object inherits, such
  as \<^verbatim>\<open>toString\<close>, are not part of the model: a number, which is what an id is declared
  to be, never names one.)
\<close>

definition cancelRequest :: "js \<Rightarrow> stdio \<Rightarrow> error + (bool \<times> stdio)" where
  "cancelRequest request s =
     (case request_target request of
        Inl e \<Rightarrow> Inl e
      | Inr target \<Rightarrow>
          (case ongoingRequests s (ToPropertyKey target) of
             None \<Rightarrow> Inr (False, s)
           | Some ongoing \<Rightarrow>
               Inr (True,
                 (if is_cancelable ongoing then s\<lparr>cancelled := cancelled s @ [ongoing]\<rparr> else s)
                   \<lparr>ongoingRequests := (ongoingRequests s)(ToPropertyKey target := None)\<rparr>)))"

section \<open>\<^verbatim>\<open>handleRequest\<close>\<close>

text \<open>
  A call of \<^verbatim>\<open>handleRequest\<close> either returns its response without suspending or is
  suspended at \<^verbatim>\<open>await result\<close>.
\<close>

datatype dispatch = Returned response | Awaiting handle

text \<open>The \<^verbatim>\<open>catch\<close> block logs the error; \<^verbatim>\<open>finally\<close> returns the response as it stands.\<close>

definition caught :: "error \<Rightarrow> js \<Rightarrow> response \<Rightarrow> stdio \<Rightarrow> dispatch \<times> stdio" where
  "caught e request r s = (Returned r, s\<lparr>logger := logger s @ [FailedToHandle e request]\<rparr>)"

text \<open>
  The body up to the first suspension. \<^verbatim>\<open>typeof result === "object"\<close> holds of
  \<^verbatim>\<open>null\<close> as well, on which reading \<^verbatim>\<open>result.then\<close> throws.
\<close>

definition handleRequest :: "js \<Rightarrow> stdio \<Rightarrow> dispatch \<times> stdio" where
  "handleRequest request s =
     (case agent s of
        None \<Rightarrow> caught AgentNotBound request (JNum 0, JNull) s
      | Some a \<Rightarrow>
          (case js_index request 0 of
             Inl e \<Rightarrow> caught e request (JNum 0, JNull) s
           | Inr rid \<Rightarrow>
               (case request_func request of
                  Inl e \<Rightarrow> caught e request (rid, JNull) s
                | Inr funcName \<Rightarrow>
                    if funcName = JStr ''cancelRequest'' then
                      (case cancelRequest request s of
                         Inl e \<Rightarrow> caught e request (rid, JNull) s
                       | Inr (b, s') \<Rightarrow> (Returned (rid, JBool b), s'))
                    else
                      (case lookup a (ToPropertyKey funcName) of
                         None \<Rightarrow> caught (UnknownFunction funcName) request (rid, JNull) s
                       | Some func \<Rightarrow>
                           (case request_args request of
                              Inl e \<Rightarrow> caught e request (rid, JNull) s
                            | Inr args \<Rightarrow>
                                (case func args of
                                   Inl e \<Rightarrow> caught e request (rid, JNull) s
                                 | Inr (Value v) \<Rightarrow>
                                     if v = JNull then caught TypeError request (rid, JNull) s
                                     else (Returned (rid, v), s)
                                 | Inr (Thenable h) \<Rightarrow>
                                     (Awaiting h,
                                      s\<lparr>ongoingRequests :=
                                          (ongoingRequests s)(ToPropertyKey rid \<mapsto> h),
                                        suspended := suspended s @ [(h, request, rid)]\<rparr>)))))))"

text \<open>
  The rest of the body, run when the awaited promise is fulfilled (\<open>Inr\<close>) or rejected
  (\<open>Inl\<close>): \<^verbatim>\<open>delete this.ongoingRequests[request[0]]\<close> stands after the \<^verbatim>\<open>await\<close> inside
  the \<^verbatim>\<open>try\<close>, and \<^verbatim>\<open>request[0]\<close> is the value stored in \<^verbatim>\<open>response[0]\<close>.
\<close>

definition resumeRequest :: "error + js \<Rightarrow> js \<Rightarrow> js \<Rightarrow> stdio \<Rightarrow> response \<times> stdio" where
  "resumeRequest outcome request rid s =
     (case outcome of
        Inr v \<Rightarrow>
          ((rid, v), s\<lparr>ongoingRequests := (ongoingRequests s)(ToPropertyKey rid := None)\<rparr>)
      | Inl e \<Rightarrow> ((rid, JNull), s\<lparr>logger := logger s @ [FailedToHandle e request]\<rparr>))"

text \<open>
  When a promise settles, every call suspended on it resumes, in the order of
  suspension; the responses are sent once all of them have returned.
\<close>

fun resumeAll :: "error + js \<Rightarrow> (handle \<times> js \<times> js) list \<Rightarrow> stdio \<Rightarrow> response list \<times> stdio" where
  "resumeAll outcome [] s = ([], s)"
| "resumeAll outcome (w # ws) s =
     (case resumeRequest outcome (fst (snd w)) (snd (snd w)) s of
        (r, s') \<Rightarrow> (case resumeAll outcome ws s' of (rs, s'') \<Rightarrow> (r # rs, s'')))"

definition settle :: "handle \<Rightarrow> error + js \<Rightarrow> stdio \<Rightarrow> stdio" where
  "settle h outcome s =
     (case resumeAll outcome (filter (\<lambda>w. fst w = h) (suspended s))
             (s\<lparr>suspended := filter (\<lambda>w. fst w \<noteq> h) (suspended s)\<rparr>) of
        (rs, s') \<Rightarrow> fold thenSend rs s')"

section \<open>\<^verbatim>\<open>handleInput\<close>\<close>

text \<open>
  Modelled from the spec: \<^verbatim>\<open>splitLines\<close> of \<^verbatim>\<open>./utils\<close> is not among the sources. The
  framer of the spec cuts the character stream at each line feed into newline-terminated
  lines, and \<^verbatim>\<open>handleInput\<close> asks the last piece whether it \<^verbatim>\<open>endsWith("\n")\<close>: the pieces
  keep their terminator, and a last piece without one is the unfinished line.
\<close>

fun splitLines :: "string \<Rightarrow> string list" where
  "splitLines [] = []"
| "splitLines (c # cs) =
     (if c = newline then [c] # splitLines cs
      else (case splitLines cs of [] \<Rightarrow> [[c]] | l # ls \<Rightarrow> (c # l) # ls))"

definition endsWith :: "string \<Rightarrow> string \<Rightarrow> bool" where
  "endsWith s suffix =
     (length suffix \<le> length s \<and> drop (length s - length suffix) s = suffix)"

text \<open>
  \<^verbatim>\<open>data.toString()\<close>: the bytes of the chunk are decoded as UTF-8, each chunk on its own.
  A well-formed sequence gives its character, held here by the same bytes; every
  maximal ill-formed part, and a sequence that the chunk cuts short, gives the
  replacement character \<^verbatim>\<open>U+FFFD\<close>. The state of the decoder is the bytes of the sequence
  begun, the number of bytes still needed, and the bounds for the next byte.
\<close>

definition replacement :: string where
  "replacement = [CHR 0xEF, CHR 0xBF, CHR 0xBD]"

type_synonym utf8_state = "string \<times> nat \<times> nat \<times> nat"

definition idle :: utf8_state where
  "idle = ([], 0, 128, 191)"

definition utf8_first :: "char \<Rightarrow> string \<times> utf8_state" where
  "utf8_first b =
     (let n = (of_char b :: nat) in
      if n \<le> 127 then ([b], idle)
      else if 194 \<le> n \<and> n \<le> 223 then ([], ([b], 1, 128, 191))
      else if 224 \<le> n \<and> n \<le> 239
        then ([], ([b], 2, if n = 224 then 160 else 128, if n = 237 then 159 else 191))
      else if 240 \<le> n \<and> n \<le> 244
        then ([], ([b], 3, if n = 240 then 144 else 128, if n = 244 then 143 else 191))
      else (replacement, idle))"

definition utf8_step :: "utf8_state \<Rightarrow> char \<Rightarrow> string \<times> utf8_state" where
  "utf8_step st b =
     (case st of (seen, needed, lower, upper) \<Rightarrow>
        if needed = 0 then utf8_first b
        else if lower \<le> (of_char b :: nat) \<and> (of_char b :: nat) \<le> upper then
          (if needed = 1 then (seen @ [b], idle) else ([], (seen @ [b], needed - 1, 128, 191)))
        else (replacement @ fst (utf8_first b), snd (utf8_first b)))"

fun utf8_decode :: "utf8_state \<Rightarrow> string \<Rightarrow> string" where
  "utf8_decode st [] = (if fst (snd st) = 0 then [] else replacement)"
| "utf8_decode st (b # bs) = fst (utf8_step st b) @ utf8_decode (snd (utf8_step st b)) bs"

definition toString :: "string \<Rightarrow> string" where
  "toString data = utf8_decode idle data"

text \<open>
  The state of the decoder after some bytes; the bytes end at a boundary between
  characters when no sequence is left begun.
\<close>

fun utf8_after :: "utf8_state \<Rightarrow> string \<Rightarrow> utf8_state" where
  "utf8_after st [] = st"
| "utf8_after st (b # bs) = utf8_after (snd (utf8_step st b)) bs"

definition whole_characters :: "string \<Rightarrow> bool" where
  "whole_characters data = (fst (snd (utf8_after idle data)) = 0)"

text \<open>
  The framing at the head of \<^verbatim>\<open>handleInput\<close> (the Stream Framer of the spec, its
  \<^verbatim>\<open>feed(chunk)\<close>): from the buffer and the chunk of bytes, the lines to handle and the
  new buffer.
\<close>

definition feed :: "string \<Rightarrow> string \<Rightarrow> string list \<times> string" where
  "feed buf data =
     (let input = toString data; lines = splitLines (buf @ input) in
      if length lines < 1 then ([], buf @ input)
      else if endsWith (last lines) [newline] then (lines, [])
      else (butlast lines, last lines))"

text \<open>
  The loop over the lines, with \<^verbatim>\<open>JSON.parse\<close> as the parameter \<open>parse\<close> (\<open>None\<close> where it
  throws). Each call of \<^verbatim>\<open>handleRequest\<close> runs up to its return or its first suspension
  before the next line is read; the responses of the calls that returned are sent after
  the loop, in the order of the calls.
\<close>

fun handleLines :: "(string \<Rightarrow> js option) \<Rightarrow> string list \<Rightarrow> stdio \<Rightarrow> response list \<times> stdio" where
  "handleLines parse [] s = ([], s)"
| "handleLines parse (line # lines) s =
     (case parse line of
        None \<Rightarrow> handleLines parse lines (s\<lparr>logger := logger s @ [FailedToParse line]\<rparr>)
      | Some request \<Rightarrow>
          (case handleRequest request (s\<lparr>logger := logger s @ [ReceivedRequest request]\<rparr>) of
             (Returned r, s') \<Rightarrow>
               (case handleLines parse lines s' of (rs, s'') \<Rightarrow> (r # rs, s''))
           | (Awaiting h, s') \<Rightarrow> handleLines parse lines s'))"

definition handleInput :: "(string \<Rightarrow> js option) \<Rightarrow> string \<Rightarrow> stdio \<Rightarrow> stdio" where
  "handleInput parse data s =
     (case feed (buffer s) data of
        (lines, b) \<Rightarrow>
          (case handleLines parse lines (s\<lparr>buffer := b\<rparr>) of
             (rs, s') \<Rightarrow> fold thenSend rs s'))"

section \<open>\<^verbatim>\<open>bind\<close> and the events of the provider\<close>

text \<open>
  \<^verbatim>\<open>agentEventNames\<close> is declared in \<^verbatim>\<open>./Agent\<close>, which is not among the sources: it is a
  parameter. \<^verbatim>\<open>bind\<close> registers one listener on the provider for each name.
\<close>

definition bind :: "string list \<Rightarrow> Agent \<Rightarrow> stdio \<Rightarrow> stdio" where
  "bind agentEventNames a s =
     s\<lparr>agent := Some a,
       listeners := listeners s @ map (\<lambda>eventName. (ident a, eventName)) agentEventNames\<rparr>"

text \<open>
  The provider \<open>a\<close> emits \<open>event\<close> under \<open>eventName\<close>: each listener registered on it
  for that name runs \<^verbatim>\<open>this.sendResponse([0, event])\<close>.
\<close>

definition emit :: "nat \<Rightarrow> string \<Rightarrow> js \<Rightarrow> stdio \<Rightarrow> stdio" where
  "emit a eventName event s =
     fold (\<lambda>l. sendResponse (JNum 0, event))
       (filter (\<lambda>l. l = (a, eventName)) (listeners s)) s"

section \<open>Runs\<close>

text \<open>
  What happens to a \<^verbatim>\<open>StdIO\<close> object, one run-to-completion step each: a chunk arrives on
  the input stream (after \<^verbatim>\<open>listen()\<close> has registered \<^verbatim>\<open>handleInput\<close> there), \<^verbatim>\<open>bind\<close> is
  called, an awaited promise settles, the provider emits an event. As in \<open>handleLines\<close>,
  \<open>parse\<close> stands for \<^verbatim>\<open>JSON.parse\<close>.
\<close>

datatype event =
    Data string
  | Bind Agent
  | Settled handle "error + js"
  | Emitted nat string js

fun step :: "(string \<Rightarrow> js option) \<Rightarrow> string list \<Rightarrow> event \<Rightarrow> stdio \<Rightarrow> stdio" where
  "step parse names (Data data) s = handleInput parse data s"
| "step parse names (Bind a) s = bind names a s"
| "step parse names (Settled h outcome) s = settle h outcome s"
| "step parse names (Emitted a eventName ev) s = emit a eventName ev s"

definition run :: "(string \<Rightarrow> js option) \<Rightarrow> string list \<Rightarrow> event list \<Rightarrow> stdio \<Rightarrow> stdio" where
  "run parse names evs s = fold (step parse names) evs s"

text \<open>Feeding the framer a sequence of chunks: the lines of all calls, and the last buffer.\<close>

fun feedAll :: "string \<Rightarrow> string list \<Rightarrow> string list \<times> string" where
  "feedAll buf [] = ([], buf)"
| "feedAll buf (c # cs) =
     (case feed buf c of (ls, b) \<Rightarrow> (case feedAll b cs of (ls', b') \<Rightarrow> (ls @ ls', b')))"

subsection \<open>Example providers\<close>

text \<open>A provider without functions.\<close>

definition bare :: Agent where
  "bare = \<lparr> ident = 0, lookup = (\<lambda>k. None) \<rparr>"

text \<open>
  A provider whose \<^verbatim>\<open>ping\<close> returns a string, whose \<^verbatim>\<open>fail\<close> throws, and whose \<^verbatim>\<open>slow\<close>
  and \<^verbatim>\<open>plain\<close> return a cancelable and a plain promise.
\<close>

definition sample :: Agent where
  "sample = \<lparr> ident = 1,
     lookup = (\<lambda>k.
       if k = ''ping'' then Some (\<lambda>args. Inr (Value (JStr ''pong'')))
       else if k = ''fail'' then Some (\<lambda>args. Inl (AgentError (JStr ''boom'')))
       else if k = ''slow'' then Some (\<lambda>args. Inr (Thenable (CancelablePromise 4)))
       else if k = ''plain'' then Some (\<lambda>args. Inr (Thenable (PlainPromise 5)))
       else None) \<rparr>"

text \<open>Example requests and an example chunk of input for \<open>sample\<close>.\<close>

definition call :: "int \<Rightarrow> string \<Rightarrow> js list \<Rightarrow> js" where
  "call i name args = JArr [JNum i, JObj [(''func'', JStr name), (''args'', JArr args)]]"

definition sample_input :: string where
  \<open>sample_input =
     ''[5,{"func":"nope","args":[]}]'' @ [newline] @ ''[6,{"func":"fail","args":[]}]'' @ [newline]
     @ ''[7,{"func":"ping","args":[]}]'' @ [newline] @ ''[8,{"func":"slow","args":[]}]'' @ [newline]
     @ ''junk'' @ [newline]\<close>

fun is_bind :: "event \<Rightarrow> bool" where
  "is_bind (Bind a) = True"
| "is_bind e = False"

subsection \<open>JSON values\<close>

text \<open>
  The values that are JSON, with safe integers for numbers: no \<^verbatim>\<open>undefined\<close> inside, and
  the properties of an object listed as the object enumerates them (each key once; array
  indices first, ascending).
\<close>

definition key_fits :: "string list \<Rightarrow> string \<Rightarrow> bool" where
  "key_fits ks k =
     (k \<notin> set ks \<and>
      (case array_index k of
         None \<Rightarrow> True
       | Some i \<Rightarrow> \<forall>k'\<in>set ks. case array_index k' of None \<Rightarrow> False | Some j \<Rightarrow> j < i))"

definition enumerable :: "string list \<Rightarrow> bool" where
  "enumerable ks = list_all (\<lambda>n. key_fits (take n ks) (ks ! n)) [0..<length ks]"

fun json_value :: "js \<Rightarrow> bool" where
  "json_value JUndefined = False"
| "json_value (JArr xs) = (\<forall>x\<in>set xs. json_value x)"
| "json_value (JObj kvs) = (enumerable (map fst kvs) \<and> (\<forall>kv\<in>set kvs. json_value (snd kv)))"
| "json_value (JNum i) = safe_integer i"
| "json_value (JDouble d) = False"
| "json_value v = True"

text \<open>The text of a value inside an array.\<close>

definition text_of :: "js \<Rightarrow> string" where
  "text_of v = (case JSON_stringify v of None \<Rightarrow> ''null'' | Some t \<Rightarrow> t)"

text \<open>A bound on the depth of recursion that \<open>parse_value\<close> needs to read a value back.\<close>

fun fuel :: "js \<Rightarrow> nat" where
  "fuel (JArr xs) = Suc (sum_list (map (\<lambda>x. Suc (fuel x)) xs))"
| "fuel (JObj kvs) = Suc (sum_list (map (\<lambda>kv. Suc (fuel (snd kv))) kvs))"
| "fuel v = Suc 0"

definition no_digit_ahead :: "string \<Rightarrow> bool" where
  "no_digit_ahead rest = (case rest of [] \<Rightarrow> True | c # cs \<Rightarrow> \<not> is_digit c)"

text \<open>A text without control characters, in particular without line terminator.\<close>

definition printable :: "string \<Rightarrow> bool" where
  "printable t = (\<forall>d\<in>set t. 32 \<le> (of_char d :: nat))"

text \<open>The line that asks to cancel the request \<open>t\<close>, sent with id \<open>i\<close>.\<close>

definition cancel_line :: "int \<Rightarrow> int \<Rightarrow> string" where
  \<open>cancel_line i t =
     ''['' @ show_int i @ '',{"func":"cancelRequest","args":['' @ show_int t @ '']}]'' @ [newline]\<close>

section \<open>The counter of the parser\<close>

text \<open>
  The counter that \<open>JSON_parse\<close> hands to \<open>parse_value\<close> is large enough: a larger one
  gives the same result (\<open>JSON_parse_enough_fuel\<close>), so \<open>None\<close> is never the running out
  of the counter.
\<close>

lemma parse_value_Some:
  assumes "parse_value (Suc n) s = Some p"
  obtains (empty_array) c r where "skip_ws s = c # r" "c = CHR ''[''" "starts_with (skip_ws r) '']''"
      "p = (JArr [], drop 1 (skip_ws r))"
  | (array) c r vs t where "skip_ws s = c # r" "c = CHR ''[''" "\<not> starts_with (skip_ws r) '']''"
      "parse_elements n r = Some (vs, t)" "p = (JArr vs, t)"
  | (empty_object) c r where "skip_ws s = c # r" "c \<noteq> CHR ''[''" "c = CHR ''{''"
      "starts_with (skip_ws r) ''}''" "p = (JObj [], drop 1 (skip_ws r))"
  | (object) c r kvs t where "skip_ws s = c # r" "c \<noteq> CHR ''[''" "c = CHR ''{''"
      "\<not> starts_with (skip_ws r) ''}''" "parse_members n r = Some (kvs, t)"
      "p = (JObj (foldl obj_put [] kvs), t)"
  | (atom) c r where "skip_ws s = c # r" "c \<noteq> CHR ''[''" "c \<noteq> CHR ''{''"
      "parse_value (Suc 0) s = Some p"
proof (cases "skip_ws s")
  case Nil
  with assms show ?thesis by simp
next
  case (Cons c r)
  show ?thesis
  proof (cases "c = CHR ''[''")
    case True
    show ?thesis
    proof (cases "starts_with (skip_ws r) '']''")
      case s: True
      with assms Cons True empty_array show ?thesis by simp
    next
      case s: False
      with assms Cons True obtain vs t where "parse_elements n r = Some (vs, t)" "p = (JArr vs, t)"
        by (cases "parse_elements n r") auto
      with Cons True s array show ?thesis by blast
    qed
  next
    case False
    show ?thesis
    proof (cases "c = CHR ''{''")
      case o: True
      show ?thesis
      proof (cases "starts_with (skip_ws r) ''}''")
        case s: True
        with assms Cons False o empty_object show ?thesis by simp
      next
        case s: False
        with assms Cons False o obtain kvs t where "parse_members n r = Some (kvs, t)"
          "p = (JObj (foldl obj_put [] kvs), t)"
          by (cases "parse_members n r") auto
        with Cons False o s object show ?thesis by blast
      qed
    next
      case o: False
      from assms Cons False o have "parse_value (Suc 0) s = Some p" by simp
      with Cons False o atom show ?thesis by blast
    qed
  qed
qed


lemma parse_value_atom:
  "skip_ws s = c # r \<Longrightarrow> c \<noteq> CHR ''['' \<Longrightarrow> c \<noteq> CHR ''{'' \<Longrightarrow>
   parse_value (Suc m) s = parse_value (Suc 0) s"
  by simp

lemma parse_elements_Some:
  assumes "parse_elements (Suc n) s = Some p"
  obtains (more) v r c t vs u where "parse_value n s = Some (v, r)" "skip_ws r = c # t"
      "c = CHR '',''" "parse_elements n t = Some (vs, u)" "p = (v # vs, u)"
  | (last) v r c t where "parse_value n s = Some (v, r)" "skip_ws r = c # t"
      "c \<noteq> CHR '',''" "c = CHR '']''" "p = ([v], t)"
proof -
  from assms obtain v r where v: "parse_value n s = Some (v, r)"
    by (cases "parse_value n s") auto
  with assms obtain c t where c: "skip_ws r = c # t"
    by (cases "skip_ws r") auto
  show ?thesis
  proof (cases "c = CHR '',''")
    case True
    with assms v c obtain vs u where "parse_elements n t = Some (vs, u)" "p = (v # vs, u)"
      by (cases "parse_elements n t") auto
    with v c True more show ?thesis by blast
  next
    case False
    with assms v c have "c = CHR '']''" "p = ([v], t)"
      by (auto split: if_splits)
    with v c False last show ?thesis by blast
  qed
qed

lemma parse_members_Some:
  assumes "parse_members (Suc n) s = Some p"
  obtains (more) r k t u v w d x kvs y where "skip_ws s = dquote # r" "parse_chars r = Some (k, t)"
      "skip_ws t = CHR '':'' # u" "parse_value n u = Some (v, w)" "skip_ws w = d # x"
      "d = CHR '',''" "parse_members n x = Some (kvs, y)" "p = ((k, v) # kvs, y)"
  | (last) r k t u v w d x where "skip_ws s = dquote # r" "parse_chars r = Some (k, t)"
      "skip_ws t = CHR '':'' # u" "parse_value n u = Some (v, w)" "skip_ws w = d # x"
      "d \<noteq> CHR '',''" "d = CHR ''}''" "p = ([(k, v)], x)"
proof -
  from assms obtain q r where q: "skip_ws s = q # r"
    by (cases "skip_ws s") auto
  with assms have qd: "q = dquote" by (auto split: if_splits)
  from assms q qd obtain k t where k: "parse_chars r = Some (k, t)"
    by (cases "parse_chars r") auto
  from assms q qd k obtain c u where c: "skip_ws t = c # u"
    by (cases "skip_ws t") auto
  from assms q qd k c have cc: "c = CHR '':''" by (auto split: if_splits)
  from assms q qd k c cc obtain v w where v: "parse_value n u = Some (v, w)"
    by (cases "parse_value n u") auto
  from assms q qd k c cc v obtain d x where d: "skip_ws w = d # x"
    by (cases "skip_ws w") auto
  show ?thesis
  proof (cases "d = CHR '',''")
    case True
    with assms q qd k c cc v d obtain kvs y where "parse_members n x = Some (kvs, y)"
      "p = ((k, v) # kvs, y)"
      by (cases "parse_members n x") auto
    with q qd k c cc v d True more show ?thesis by blast
  next
    case False
    with assms q qd k c cc v d have "d = CHR ''}''" "p = ([(k, v)], x)"
      by (auto split: if_splits)
    with q qd k c cc v d False last show ?thesis by blast
  qed
qed

lemma parse_mono:
  "(\<forall>s p. parse_value n s = Some p \<longrightarrow> parse_value (Suc n) s = Some p)
   \<and> (\<forall>s p. parse_elements n s = Some p \<longrightarrow> parse_elements (Suc n) s = Some p)
   \<and> (\<forall>s p. parse_members n s = Some p \<longrightarrow> parse_members (Suc n) s = Some p)"
proof (induction n)
  case 0
  then show ?case by simp
next
  case (Suc n)
  then have v: "\<And>s p. parse_value n s = Some p \<Longrightarrow> parse_value (Suc n) s = Some p"
    and e: "\<And>s p. parse_elements n s = Some p \<Longrightarrow> parse_elements (Suc n) s = Some p"
    and m: "\<And>s p. parse_members n s = Some p \<Longrightarrow> parse_members (Suc n) s = Some p"
    by blast+
  have 1: "parse_value (Suc (Suc n)) s = Some p" if "parse_value (Suc n) s = Some p" for s p
    using that
  proof (cases rule: parse_value_Some)
    case (array c r vs t)
    with e [OF array(4)] show ?thesis by simp
  next
    case (object c r kvs t)
    with m [OF object(5)] show ?thesis by simp
  next
    case (atom c r)
    from parse_value_atom [OF atom(1-3), of "Suc n"] atom(4) show ?thesis by simp
  qed simp_all
  have 2: "parse_elements (Suc (Suc n)) s = Some p" if "parse_elements (Suc n) s = Some p" for s p
    using that
  proof (cases rule: parse_elements_Some)
    case (more v' r c t vs u)
    with v [OF more(1)] e [OF more(4)] show ?thesis by simp
  next
    case (last v' r c t)
    with v [OF last(1)] show ?thesis by simp
  qed
  have 3: "parse_members (Suc (Suc n)) s = Some p" if "parse_members (Suc n) s = Some p" for s p
    using that
  proof (cases rule: parse_members_Some)
    case (more r k t u v' w d x kvs y)
    with v [OF more(4)] m [OF more(7)] show ?thesis by simp
  next
    case (last r k t u v' w d x)
    with v [OF last(4)] show ?thesis by simp
  qed
  from 1 2 3 show ?case by blast
qed


lemma skip_ws_shorter: "skip_ws s = c # r \<Longrightarrow> length r < length s"
proof -
  assume a: "skip_ws s = c # r"
  have "length (skip_ws s) \<le> length s" by (simp add: skip_ws_def length_dropWhile_le)
  with a show ?thesis by simp
qed

lemma length_skip_ws: "length (skip_ws s) \<le> length s"
  by (simp add: skip_ws_def length_dropWhile_le)

lemma cons_chars_Some:
  "cons_chars c q = Some (k, t) \<Longrightarrow> \<exists>k'. q = Some (k', t)"
  by (cases q) (auto simp: cons_chars_def)

lemma parse_chars_shorter: "parse_chars r = Some (k, t) \<Longrightarrow> length t < length r"
proof (induction r arbitrary: k t rule: length_induct)
  case (1 r)
  have ih: "length t' < length ys" if "length ys < length r" "parse_chars ys = Some (k', t')"
    for ys k' t'
    using "1.IH" that by blast
  show ?case
  proof (cases r rule: parse_chars.cases)
    case 1
    with "1.prems" show ?thesis by simp
  next
    case (2 c)
    with "1.prems" show ?thesis by (simp split: if_splits)
  next
    case (3 c e r')
    show ?thesis
    proof (cases "c = dquote")
      case True
      with 3 "1.prems" show ?thesis by simp
    next
      case nq: False
      show ?thesis
      proof (cases "c = backslash")
        case True
        show ?thesis
        proof (cases "unescape e")
          case (Some x)
          with 3 nq True "1.prems" have "cons_chars x (parse_chars r') = Some (k, t)" by simp
          then obtain k' where "parse_chars r' = Some (k', t)" using cons_chars_Some by blast
          with ih [of r' k' t] 3 have "length t < length r'" by simp
          with 3 show ?thesis by simp
        next
          case None
          with 3 nq True "1.prems" obtain a b c' d r'' x where r': "r' = a # b # c' # d # r''"
            and "cons_chars x (parse_chars r'') = Some (k, t)"
            by (auto split: if_splits list.splits option.splits)
          then obtain k' where "parse_chars r'' = Some (k', t)" using cons_chars_Some by blast
          with ih [of r'' k' t] 3 r' have "length t < length r''" by simp
          with 3 r' show ?thesis by simp
        qed
      next
        case nb: False
        with 3 nq "1.prems" have "cons_chars c (parse_chars (e # r')) = Some (k, t)"
          by (simp split: if_splits)
        then obtain k' where "parse_chars (e # r') = Some (k', t)" using cons_chars_Some by blast
        with ih [of "e # r'" k' t] 3 have "length t < length (e # r')" by simp
        with 3 show ?thesis by simp
      qed
    qed
  qed
qed

lemma parse_digits_shorter: "parse_digits s = Some (n, t) \<Longrightarrow> length t < length s"
proof (cases s)
  case Nil
  assume "parse_digits s = Some (n, t)"
  with Nil show ?thesis by (simp add: parse_digits_def)
next
  case (Cons c r)
  assume a: "parse_digits s = Some (n, t)"
  have "length (dropWhile is_digit r) \<le> length r" by (rule length_dropWhile_le)
  with a Cons show ?thesis by (auto simp: parse_digits_def split: if_splits)
qed

lemma parse_number_shorter: "parse_number s = Some (v, t) \<Longrightarrow> length t < length s"
proof (cases s)
  case Nil
  assume "parse_number s = Some (v, t)"
  with Nil show ?thesis by (simp add: parse_number_def)
next
  case (Cons c r)
  assume a: "parse_number s = Some (v, t)"
  show ?thesis
  proof (cases "c = CHR ''-''")
    case True
    with a Cons obtain n where "parse_digits r = Some (n, t)"
      by (auto simp: parse_number_def split: option.splits if_splits)
    from parse_digits_shorter [OF this] Cons show ?thesis by simp
  next
    case False
    with a Cons obtain n where "parse_digits s = Some (n, t)"
      by (auto simp: parse_number_def split: option.splits if_splits)
    from parse_digits_shorter [OF this] show ?thesis .
  qed
qed

lemma parse_atom_shorter:
  assumes "skip_ws s = c # r" "c \<noteq> CHR ''[''" "c \<noteq> CHR ''{''"
    and "parse_value (Suc 0) s = Some (v, t)"
  shows "length t < length s"
proof -
  note ls = length_skip_ws [of s]
  show ?thesis
  proof (cases "c = dquote")
    case True
    with assms obtain x where "parse_chars r = Some (x, t)"
      by (auto split: option.splits)
    from parse_chars_shorter [OF this] ls assms(1) show ?thesis by simp
  next
    case False
    consider (lit4) "t = drop 4 (c # r)" | (lit5) "t = drop 5 (c # r)"
      | (num) "parse_number (c # r) = Some (v, t)"
      using assms False by (auto split: if_splits)
    then show ?thesis
    proof cases
      case lit4
      with ls assms(1) show ?thesis by simp
    next
      case lit5
      with ls assms(1) show ?thesis by simp
    next
      case num
      from parse_number_shorter [OF this] ls assms(1) show ?thesis by simp
    qed
  qed
qed

lemma parse_shorter:
  "(\<forall>s v t. parse_value n s = Some (v, t) \<longrightarrow> length t < length s)
   \<and> (\<forall>s vs t. parse_elements n s = Some (vs, t) \<longrightarrow> length t < length s)
   \<and> (\<forall>s kvs t. parse_members n s = Some (kvs, t) \<longrightarrow> length t < length s)"
proof (induction n)
  case 0
  then show ?case by simp
next
  case (Suc n)
  then have v: "\<And>s v t. parse_value n s = Some (v, t) \<Longrightarrow> length t < length s"
    and e: "\<And>s vs t. parse_elements n s = Some (vs, t) \<Longrightarrow> length t < length s"
    and m: "\<And>s kvs t. parse_members n s = Some (kvs, t) \<Longrightarrow> length t < length s"
    by blast+
  have 1: "length t < length s" if "parse_value (Suc n) s = Some (v', t)" for s v' t
    using that
  proof (cases rule: parse_value_Some)
    case (empty_array c r)
    with skip_ws_shorter [OF empty_array(1)] length_skip_ws [of r] show ?thesis by simp
  next
    case (array c r vs u)
    with skip_ws_shorter [OF array(1)] e [OF array(4)] show ?thesis by simp
  next
    case (empty_object c r)
    with skip_ws_shorter [OF empty_object(1)] length_skip_ws [of r] show ?thesis by simp
  next
    case (object c r kvs u)
    with skip_ws_shorter [OF object(1)] m [OF object(5)] show ?thesis by simp
  next
    case (atom c r)
    then show ?thesis by (rule parse_atom_shorter)
  qed
  have 2: "length t < length s" if "parse_elements (Suc n) s = Some (vs, t)" for s vs t
    using that
  proof (cases rule: parse_elements_Some)
    case (more v' r c u vs' w)
    with v [OF more(1)] skip_ws_shorter [OF more(2)] e [OF more(4)] show ?thesis by simp
  next
    case (last v' r c u)
    with v [OF last(1)] skip_ws_shorter [OF last(2)] show ?thesis by simp
  qed
  have 3: "length t < length s" if "parse_members (Suc n) s = Some (kvs, t)" for s kvs t
    using that
  proof (cases rule: parse_members_Some)
    case (more r k t' u v' w d x kvs' y)
    with skip_ws_shorter [OF more(1)] parse_chars_shorter [OF more(2)] skip_ws_shorter [OF more(3)]
      v [OF more(4)] skip_ws_shorter [OF more(5)] m [OF more(7)]
    show ?thesis by simp
  next
    case (last r k t' u v' w d x)
    with skip_ws_shorter [OF last(1)] parse_chars_shorter [OF last(2)] skip_ws_shorter [OF last(3)]
      v [OF last(4)] skip_ws_shorter [OF last(5)]
    show ?thesis by simp
  qed
  from 1 2 3 show ?case by blast
qed


lemma parse_down:
  "(\<forall>s p. 2 * length s < n \<longrightarrow> parse_value (Suc n) s = Some p \<longrightarrow> parse_value n s = Some p)
   \<and> (\<forall>s p. 2 * length s + 1 < n \<longrightarrow> parse_elements (Suc n) s = Some p \<longrightarrow>
         parse_elements n s = Some p)
   \<and> (\<forall>s p. 2 * length s + 1 < n \<longrightarrow> parse_members (Suc n) s = Some p \<longrightarrow>
         parse_members n s = Some p)"
proof (induction n)
  case 0
  then show ?case by simp
next
  case (Suc n)
  then have v: "\<And>s p. 2 * length s < n \<Longrightarrow> parse_value (Suc n) s = Some p \<Longrightarrow>
        parse_value n s = Some p"
    and e: "\<And>s p. 2 * length s + 1 < n \<Longrightarrow> parse_elements (Suc n) s = Some p \<Longrightarrow>
        parse_elements n s = Some p"
    and m: "\<And>s p. 2 * length s + 1 < n \<Longrightarrow> parse_members (Suc n) s = Some p \<Longrightarrow>
        parse_members n s = Some p"
    by blast+
  note sh = parse_shorter [of "Suc n"]
  have 1: "parse_value (Suc n) s = Some p"
    if b: "2 * length s < Suc n" and h: "parse_value (Suc (Suc n)) s = Some p" for s p
    using h
  proof (cases rule: parse_value_Some)
    case (array c r vs t)
    from skip_ws_shorter [OF array(1)] b have "2 * length r + 1 < n" by simp
    from e [OF this array(4)] array show ?thesis by simp
  next
    case (object c r kvs t)
    from skip_ws_shorter [OF object(1)] b have "2 * length r + 1 < n" by simp
    from m [OF this object(5)] object show ?thesis by simp
  next
    case (atom c r)
    from parse_value_atom [OF atom(1-3), of n] atom(4) show ?thesis by simp
  qed simp_all
  have 2: "parse_elements (Suc n) s = Some p"
    if b: "2 * length s + 1 < Suc n" and h: "parse_elements (Suc (Suc n)) s = Some p" for s p
    using h
  proof (cases rule: parse_elements_Some)
    case (more v' r c t vs u)
    from b have "2 * length s < n" by simp
    from v [OF this more(1)] have pv: "parse_value n s = Some (v', r)" .
    from sh more(1) have "length r < length s" by blast
    with skip_ws_shorter [OF more(2)] b have "2 * length t + 1 < n" by simp
    from e [OF this more(4)] pv more show ?thesis by simp
  next
    case (last v' r c t)
    from b have "2 * length s < n" by simp
    from v [OF this last(1)] last show ?thesis by simp
  qed
  have 3: "parse_members (Suc n) s = Some p"
    if b: "2 * length s + 1 < Suc n" and h: "parse_members (Suc (Suc n)) s = Some p" for s p
    using h
  proof (cases rule: parse_members_Some)
    case (more r k t u v' w d x kvs y)
    from skip_ws_shorter [OF more(1)] parse_chars_shorter [OF more(2)] skip_ws_shorter [OF more(3)]
    have lu: "length u < length s" by simp
    with b have "2 * length u < n" by simp
    from v [OF this more(4)] have pv: "parse_value n u = Some (v', w)" .
    from sh more(4) have "length w < length u" by blast
    with skip_ws_shorter [OF more(5)] lu b have "2 * length x + 1 < n" by simp
    from m [OF this more(7)] pv more show ?thesis by simp
  next
    case (last r k t u v' w d x)
    from skip_ws_shorter [OF last(1)] parse_chars_shorter [OF last(2)] skip_ws_shorter [OF last(3)]
    have lu: "length u < length s" by simp
    with b have "2 * length u < n" by simp
    from v [OF this last(4)] last show ?thesis by simp
  qed
  from 1 2 3 show ?case by blast
qed

lemma parse_value_Suc_fuel:
  assumes "2 * length s < n"
  shows "parse_value (Suc n) s = parse_value n s"
proof (cases "parse_value n s")
  case (Some p)
  with parse_mono [of n] have "parse_value (Suc n) s = Some p" by blast
  with Some show ?thesis by (simp only:)
next
  case None
  show ?thesis
  proof (cases "parse_value (Suc n) s")
    case n: None
    with None show ?thesis by (simp only:)
  next
    case (Some p)
    with parse_down [of n] assms have "parse_value n s = Some p" by blast
    with None show ?thesis by (simp only: option.distinct)
  qed
qed

lemma parse_value_more_fuel:
  "2 * length s < n \<Longrightarrow> parse_value (n + k) s = parse_value n s"
proof (induction k)
  case 0
  then show ?case by simp
next
  case (Suc k)
  then have "2 * length s < n + k" by simp
  from parse_value_Suc_fuel [OF this] Suc show ?case by (simp only: add_Suc_right)
qed

lemma JSON_parse_enough_fuel:
  "(case parse_value (2 * length s + 1 + k) s of
      None \<Rightarrow> None
    | Some (v, r) \<Rightarrow> if skip_ws r = [] then Some v else None) = JSON_parse s"
proof -
  have "parse_value (2 * length s + 1 + k) s = parse_value (2 * length s + 1) s"
    by (rule parse_value_more_fuel) simp
  then show ?thesis by (simp only: JSON_parse_def)
qed

section \<open>A run of the protocol\<close>

text \<open>
  A request for cancellation before a provider is bound; then the provider \<open>sample\<close> is
  bound and a chunk brings four requests and a line that is not JSON: an unknown
  function, a function that throws, \<^verbatim>\<open>ping\<close>, and \<^verbatim>\<open>slow\<close>, which stays pending; the
  provider emits an event; the pending request is cancelled; its promise rejects.
\<close>

lemma sample_run:
  \<open>outStream (run JSON_parse [''statusChanged'']
      [Data (cancel_line 7 3), Bind sample, Data sample_input,
       Emitted 1 ''statusChanged'' (JStr ''ready''), Data (cancel_line 9 8),
       Settled (CancelablePromise 4) (Inl (AgentError JNull))] initial)
   = [''[0,null]'' @ [newline], ''[5,null]'' @ [newline], ''[6,null]'' @ [newline],
      ''[7,"pong"]'' @ [newline], ''[0,"ready"]'' @ [newline], ''[9,true]'' @ [newline],
      ''[8,null]'' @ [newline]]\<close>
  by code_simp

section \<open>Requests before a provider is bound\<close>

lemma outStream_fold_thenSend: "outStream (fold thenSend rs s) = outStream s @ map encode rs"
  by (induction rs arbitrary: s) (simp_all add: thenSend_def sendResponse_def)

lemma handleRequest_unbound:
  "agent s = None \<Longrightarrow>
   handleRequest request s =
     (Returned (JNum 0, JNull), s\<lparr>logger := logger s @ [FailedToHandle AgentNotBound request]\<rparr>)"
  by (simp add: handleRequest_def caught_def)

lemma handleLines_unbound:
  "agent s = None \<Longrightarrow>
   fst (handleLines parse lines s) =
     replicate (length (filter (\<lambda>l. parse l \<noteq> None) lines)) (JNum 0, JNull)
   \<and> outStream (snd (handleLines parse lines s)) = outStream s"
proof (induction lines arbitrary: s)
  case Nil
  then show ?case by simp
next
  case (Cons line lines)
  show ?case
  proof (cases "parse line")
    case None
    with Cons.IH [of "s\<lparr>logger := logger s @ [FailedToParse line]\<rparr>"] Cons.prems
    show ?thesis by simp
  next
    case (Some request)
    let ?s1 = "s\<lparr>logger := logger s @ [ReceivedRequest request]\<rparr>"
    let ?s2 = "?s1\<lparr>logger := logger ?s1 @ [FailedToHandle AgentNotBound request]\<rparr>"
    have "agent ?s1 = None" using Cons.prems by simp
    then have hr: "handleRequest request ?s1 = (Returned (JNum 0, JNull), ?s2)"
      by (rule handleRequest_unbound)
    have "agent ?s2 = None" using Cons.prems by simp
    from Cons.IH [OF this] Some hr show ?thesis
      by (simp add: split_beta)
  qed
qed

lemma encode_unbound: "encode (JNum 0, JNull) = ''[0,null]'' @ [newline]"
  by code_simp

text \<open>
  C1. While no provider is bound, \<^verbatim>\<open>handleRequest\<close> returns the response with id 0 and
  payload \<^verbatim>\<open>null\<close> for every request value, whatever id and function it carries; its wire
  form is the line \<^verbatim>\<open>[0,null]\<close>, and a chunk of input writes that line once for each
  of its lines that \<^verbatim>\<open>JSON.parse\<close> reads, and nothing else. This holds whatever function
  \<open>parse\<close> stands for \<^verbatim>\<open>JSON.parse\<close>.
\<close>

theorem unbound_response_zero_null:
  "agent s = None \<Longrightarrow>
     fst (handleRequest request s) = Returned (JNum 0, JNull)
     \<and> encode (JNum 0, JNull) = ''[0,null]'' @ [newline]
     \<and> outStream (handleInput parse input s) =
         outStream s @
         replicate (length (filter (\<lambda>l. parse l \<noteq> None) (fst (feed (buffer s) input))))
           (''[0,null]'' @ [newline])"
proof -
  assume a: "agent s = None"
  obtain lines b where f: "feed (buffer s) input = (lines, b)"
    by (cases "feed (buffer s) input")
  have a': "agent (s\<lparr>buffer := b\<rparr>) = None" using a by simp
  obtain rs s' where h: "handleLines parse lines (s\<lparr>buffer := b\<rparr>) = (rs, s')"
    by (cases "handleLines parse lines (s\<lparr>buffer := b\<rparr>)")
  from handleLines_unbound [OF a', where lines = lines and parse = parse] h
  have rs: "rs = replicate (length (filter (\<lambda>l. parse l \<noteq> None) lines)) (JNum 0, JNull)"
    and out: "outStream s' = outStream s" by simp_all
  have "outStream (handleInput parse input s) = outStream s' @ map encode rs"
    by (simp add: handleInput_def f h outStream_fold_thenSend)
  with rs out f encode_unbound handleRequest_unbound [OF a, where request = request] show ?thesis
    by (simp add: map_replicate)
qed

theorem unbound_response_zero_null_witness:
  \<open>agent initial = None
   \<and> fst (handleRequest (JArr [JNum 5, JObj [(''func'', JStr ''ping''), (''args'', JArr [])]]) initial)
       = Returned (JNum 0, JNull)
   \<and> outStream (handleInput JSON_parse (''[5,{"func":"ping","args":[]}]'' @ [newline]) initial)
       = [''[0,null]'' @ [newline]]\<close>
proof -
  have a: "agent initial = None" by (simp add: initial_def)
  have b: "buffer initial = []" by (simp add: initial_def)
  have o: "outStream initial = []" by (simp add: initial_def)
  have n: \<open>length (filter (\<lambda>l. JSON_parse l \<noteq> None)
             (fst (feed [] (''[5,{"func":"ping","args":[]}]'' @ [newline])))) = 1\<close>
    by code_simp
  from unbound_response_zero_null [OF a,
      where request = "JArr [JNum 5, JObj [(''func'', JStr ''ping''), (''args'', JArr [])]]"
        and input = \<open>''[5,{"func":"ping","args":[]}]'' @ [newline]\<close> and parse = JSON_parse]
  show ?thesis unfolding b o n using a by simp
qed

section \<open>The framer\<close>

lemma splitLines_no_newline:
  "newline \<notin> set t \<Longrightarrow> splitLines t = (if t = [] then [] else [t])"
  by (induction t) auto

lemma splitLines_line:
  "newline \<notin> set l \<Longrightarrow> splitLines (l @ newline # u) = (l @ [newline]) # splitLines u"
  by (induction l) auto

lemma splitLines_lines:
  "\<forall>l\<in>set ls. newline \<notin> set l \<Longrightarrow>
   splitLines (concat (map (\<lambda>l. l @ [newline]) ls) @ u) = map (\<lambda>l. l @ [newline]) ls @ splitLines u"
  by (induction ls) (simp_all add: splitLines_line)

lemma endsWith_newline: "endsWith s [newline] = (s \<noteq> [] \<and> last s = newline)"
proof (cases s rule: rev_cases)
  case Nil
  then show ?thesis by (simp add: endsWith_def)
next
  case (snoc ys y)
  then show ?thesis by (auto simp: endsWith_def)
qed

lemma toString_ascii: "\<forall>c\<in>set bs. (of_char c :: nat) < 128 \<Longrightarrow> toString bs = bs"
proof -
  have "\<forall>c\<in>set bs. (of_char c :: nat) < 128 \<Longrightarrow> utf8_decode idle bs = bs"
  proof (induction bs)
    case Nil
    show ?case by (simp add: idle_def)
  next
    case (Cons b bs)
    then have "(of_char b :: nat) \<le> 127" by simp
    then have "utf8_step idle b = ([b], idle)"
      by (simp add: utf8_step_def utf8_first_def idle_def)
    with Cons show ?case by simp
  qed
  then show "\<forall>c\<in>set bs. (of_char c :: nat) < 128 \<Longrightarrow> toString bs = bs"
    by (simp add: toString_def)
qed

lemma feed_lines:
  assumes "\<forall>l\<in>set ls. newline \<notin> set l" and "newline \<notin> set frag"
    and "buf @ toString input = concat (map (\<lambda>l. l @ [newline]) ls) @ frag"
  shows "feed buf input = (map (\<lambda>l. l @ [newline]) ls, frag)"
proof -
  let ?L = "map (\<lambda>l. l @ [newline]) ls"
  define t where "t = toString input"
  have sp: "splitLines (buf @ t) = ?L @ (if frag = [] then [] else [frag])"
    using assms by (simp add: t_def splitLines_lines splitLines_no_newline)
  have f: "feed buf input =
      (let lines = splitLines (buf @ t) in
       if length lines < 1 then ([], buf @ t)
       else if endsWith (last lines) [newline] then (lines, [])
       else (butlast lines, last lines))"
    by (simp add: feed_def t_def Let_def)
  show ?thesis
  proof (cases "frag = []")
    case True
    show ?thesis
    proof (cases ls rule: rev_cases)
      case Nil
      from True Nil assms(3) have e: "buf @ t = []" by (simp add: t_def)
      from True Nil sp have "splitLines (buf @ t) = []" by simp
      with e True Nil show ?thesis unfolding f by simp
    next
      case (snoc ys y)
      with True sp show ?thesis by (simp add: f endsWith_newline)
    qed
  next
    case False
    with assms(2) have "last frag \<noteq> newline" using last_in_set by metis
    with False sp show ?thesis by (simp add: f endsWith_newline butlast_append)
  qed
qed

lemma decompose_lines:
  "\<exists>ls frag. t = concat (map (\<lambda>l. l @ [newline]) ls) @ frag
     \<and> (\<forall>l\<in>set ls. newline \<notin> set l) \<and> newline \<notin> set frag"
proof (induction t)
  case Nil
  have "[] = concat (map (\<lambda>l. l @ [newline]) []) @ [] \<and> (\<forall>l\<in>set ([]::string list). newline \<notin> set l) \<and> newline \<notin> set []"
    by simp
  then show ?case by blast
next
  case (Cons c t)
  then obtain ls frag where d: "t = concat (map (\<lambda>l. l @ [newline]) ls) @ frag"
    "\<forall>l\<in>set ls. newline \<notin> set l" "newline \<notin> set frag" by blast
  show ?case
  proof (cases "c = newline")
    case True
    with d have "c # t = concat (map (\<lambda>l. l @ [newline]) ([] # ls)) @ frag
      \<and> (\<forall>l\<in>set ([] # ls). newline \<notin> set l) \<and> newline \<notin> set frag" by simp
    then show ?thesis by blast
  next
    case False
    show ?thesis
    proof (cases ls)
      case Nil
      with d False have "c # t = concat (map (\<lambda>l. l @ [newline]) []) @ (c # frag)
        \<and> (\<forall>l\<in>set ([]::string list). newline \<notin> set l) \<and> newline \<notin> set (c # frag)" by simp
      then show ?thesis by blast
    next
      case (Cons l ls')
      with d False have "c # t = concat (map (\<lambda>l. l @ [newline]) ((c # l) # ls')) @ frag
        \<and> (\<forall>l\<in>set ((c # l) # ls'). newline \<notin> set l) \<and> newline \<notin> set frag" by simp
      then show ?thesis by blast
    qed
  qed
qed

lemma utf8_step_idle: "fst (snd st) = 0 \<Longrightarrow> utf8_step st b = utf8_first b"
  by (cases st) (simp add: utf8_step_def)

lemma idle_needs_none: "fst (snd idle) = 0"
  by (simp add: idle_def)

lemma utf8_decode_idle: "fst (snd st) = 0 \<Longrightarrow> utf8_decode st bs = utf8_decode idle bs"
  by (cases bs) (simp_all add: utf8_step_idle idle_needs_none)

lemma utf8_after_idle:
  "fst (snd st) = 0 \<Longrightarrow> fst (snd (utf8_after st bs)) = fst (snd (utf8_after idle bs))"
  by (cases bs) (simp_all add: utf8_step_idle idle_needs_none)

lemma utf8_after_append: "utf8_after st (a @ b) = utf8_after (utf8_after st a) b"
  by (induction a arbitrary: st) simp_all

lemma utf8_decode_append:
  "fst (snd (utf8_after st a)) = 0 \<Longrightarrow>
   utf8_decode st (a @ b) = utf8_decode st a @ utf8_decode idle b"
proof (induction a arbitrary: st)
  case Nil
  then show ?case by (simp add: utf8_decode_idle)
next
  case (Cons c a)
  then show ?case by simp
qed

lemma toString_append:
  "whole_characters a \<Longrightarrow> toString (a @ b) = toString a @ toString b"
  by (simp add: whole_characters_def toString_def utf8_decode_append)

lemma whole_characters_append:
  "whole_characters a \<Longrightarrow> whole_characters b \<Longrightarrow> whole_characters (a @ b)"
  by (simp add: whole_characters_def utf8_after_append utf8_after_idle)

lemma whole_characters_concat:
  "\<forall>c\<in>set chunks. whole_characters c \<Longrightarrow> whole_characters (concat chunks)"
proof (induction chunks)
  case Nil
  show ?case by (simp add: whole_characters_def idle_needs_none)
next
  case (Cons c cs)
  then show ?case by (simp add: whole_characters_append)
qed

lemma toString_Nil: "toString [] = []"
  by (simp add: toString_def idle_def)

lemma feedAll_concat:
  "newline \<notin> set buf \<Longrightarrow> \<forall>c\<in>set chunks. whole_characters c \<Longrightarrow>
   feedAll buf chunks = feed buf (concat chunks)"
proof (induction chunks arbitrary: buf)
  case Nil
  have "feed buf [] = (map (\<lambda>l. l @ [newline]) [], buf)"
    by (intro feed_lines) (use Nil in \<open>simp_all add: toString_Nil\<close>)
  then show ?case by simp
next
  case (Cons c cs)
  have tall: "toString (concat (c # cs)) = toString c @ toString (concat cs)"
    using Cons.prems(2) by (simp add: toString_append)
  obtain ls1 f1 where d1: "buf @ toString c = concat (map (\<lambda>l. l @ [newline]) ls1) @ f1"
    "\<forall>l\<in>set ls1. newline \<notin> set l" "newline \<notin> set f1"
    using decompose_lines [of "buf @ toString c"] by blast
  obtain ls2 f2 where d2: "f1 @ toString (concat cs) = concat (map (\<lambda>l. l @ [newline]) ls2) @ f2"
    "\<forall>l\<in>set ls2. newline \<notin> set l" "newline \<notin> set f2"
    using decompose_lines [of "f1 @ toString (concat cs)"] by blast
  have a: "feed buf c = (map (\<lambda>l. l @ [newline]) ls1, f1)"
    by (rule feed_lines [OF d1(2) d1(3) d1(1)])
  have b: "feed f1 (concat cs) = (map (\<lambda>l. l @ [newline]) ls2, f2)"
    by (rule feed_lines [OF d2(2) d2(3) d2(1)])
  have "buf @ toString (concat (c # cs)) = (buf @ toString c) @ toString (concat cs)"
    by (simp only: tall append_assoc)
  also have "\<dots> = concat (map (\<lambda>l. l @ [newline]) ls1) @ (f1 @ toString (concat cs))"
    by (simp only: d1(1) append_assoc)
  also have "\<dots> = concat (map (\<lambda>l. l @ [newline]) (ls1 @ ls2)) @ f2"
    by (simp only: d2(1) map_append concat_append append_assoc)
  finally have e: "buf @ toString (concat (c # cs)) = concat (map (\<lambda>l. l @ [newline]) (ls1 @ ls2)) @ f2" .
  have l12: "\<forall>l\<in>set (ls1 @ ls2). newline \<notin> set l" using d1(2) d2(2) by auto
  have full: "feed buf (concat (c # cs)) = (map (\<lambda>l. l @ [newline]) (ls1 @ ls2), f2)"
    by (rule feed_lines [OF l12 d2(3) e])
  have w: "\<forall>c\<in>set cs. whole_characters c" using Cons.prems(2) by simp
  have ih: "feedAll f1 cs = feed f1 (concat cs)" by (rule Cons.IH [OF d1(3) w])
  show ?case by (simp only: feedAll.simps a ih b full prod.case map_append)
qed

text \<open>
  What holds of the framer. Let every chunk end at a boundary between characters, and let
  the bytes of all chunks decode to the lines \<open>ls\<close>, each ended by a line feed, and to a
  trailing fragment \<open>frag\<close> without line feed. Then the chunks, cut anywhere else, yield
  the same lines as the bytes fed in one chunk: the lines \<open>ls\<close> with their line feeds, in
  order; the fragment produces no line and is the buffer left for the next call. (Every
  sequence of characters has this form: \<open>decompose_lines\<close>.)
\<close>

lemma framing_of_whole_characters:
  assumes "\<forall>l\<in>set ls. newline \<notin> set l" and "newline \<notin> set frag"
    and "toString (concat chunks) = concat (map (\<lambda>l. l @ [newline]) ls) @ frag"
    and "\<forall>c\<in>set chunks. whole_characters c"
  shows "feedAll [] chunks = (map (\<lambda>l. l @ [newline]) ls, frag)
       \<and> feed [] (concat chunks) = (map (\<lambda>l. l @ [newline]) ls, frag)"
proof -
  have e: "[] @ toString (concat chunks) = concat (map (\<lambda>l. l @ [newline]) ls) @ frag"
    by (simp only: assms(3) append_Nil)
  have f: "feed [] (concat chunks) = (map (\<lambda>l. l @ [newline]) ls, frag)"
    by (rule feed_lines [OF assms(1) assms(2) e])
  have n: "newline \<notin> set []" by simp
  have "feedAll [] chunks = feed [] (concat chunks)"
    by (rule feedAll_concat [OF n assms(4)])
  with f show ?thesis by (simp only: simp_thms)
qed

text \<open>
  C4. The framer does not yield the same lines for every cut of a byte sequence.
  \<^verbatim>\<open>handleInput\<close> decodes each chunk on its own (\<^verbatim>\<open>data.toString()\<close>), so a chunk boundary
  inside the UTF-8 encoding of a character turns the two parts into replacement
  characters. The three bytes \<^verbatim>\<open>C3 A9 0A\<close> (the letter e with acute accent and a line feed)
  fed in one chunk give the line \<^verbatim>\<open>C3 A9 0A\<close>; fed as \<^verbatim>\<open>C3\<close> and then \<^verbatim>\<open>A9 0A\<close> they give
  the line \<^verbatim>\<open>EF BF BD EF BF BD 0A\<close>, which is what \<^verbatim>\<open>handleInput\<close> passes to the decoder
  of requests. In both cases one line is produced and the buffer is left empty.
\<close>

theorem chunk_boundary_inside_character:
  "feed [] [CHR 0xC3, CHR 0xA9, newline] = ([[CHR 0xC3, CHR 0xA9, newline]], [])
   \<and> feedAll [] [[CHR 0xC3], [CHR 0xA9, newline]]
       = ([[CHR 0xEF, CHR 0xBF, CHR 0xBD, CHR 0xEF, CHR 0xBF, CHR 0xBD, newline]], [])
   \<and> fst (feedAll [] [[CHR 0xC3], [CHR 0xA9, newline]])
       \<noteq> fst (feed [] (concat [[CHR 0xC3], [CHR 0xA9, newline]]))
   \<and> \<not> whole_characters [CHR 0xC3]
   \<and> buffer (handleInput JSON_parse [CHR 0xC3] initial) = [CHR 0xEF, CHR 0xBF, CHR 0xBD]"
  by code_simp

section \<open>One response for each request\<close>

lemma handleRequest_effect:
  "handleRequest request s = (d, s') \<Longrightarrow>
     outStream s' = outStream s \<and> buffer s' = buffer s \<and> agent s' = agent s
     \<and> listeners s' = listeners s
     \<and> (case d of
          Returned r \<Rightarrow> suspended s' = suspended s
        | Awaiting h \<Rightarrow> (\<exists>rid. suspended s' = suspended s @ [(h, request, rid)]))"
  unfolding handleRequest_def caught_def cancelRequest_def
  by (auto split: option.splits sum.splits result.splits if_splits prod.splits)

lemma handleRequest_fault_null:
  "handleRequest request s = (Returned r, s') \<Longrightarrow>
   logger s' = logger s @ [FailedToHandle e request] \<Longrightarrow> snd r = JNull"
  unfolding handleRequest_def caught_def cancelRequest_def
  by (auto split: option.splits sum.splits result.splits if_splits prod.splits)

lemma handleRequest_unknown:
  "agent s = Some a \<Longrightarrow> js_index request 0 = Inr rid \<Longrightarrow> request_func request = Inr f \<Longrightarrow>
   f \<noteq> JStr ''cancelRequest'' \<Longrightarrow> lookup a (ToPropertyKey f) = None \<Longrightarrow>
   handleRequest request s =
     (Returned (rid, JNull), s\<lparr>logger := logger s @ [FailedToHandle (UnknownFunction f) request]\<rparr>)"
  by (simp add: handleRequest_def caught_def)

lemma handleRequest_throws:
  "agent s = Some a \<Longrightarrow> js_index request 0 = Inr rid \<Longrightarrow> request_func request = Inr f \<Longrightarrow>
   f \<noteq> JStr ''cancelRequest'' \<Longrightarrow> lookup a (ToPropertyKey f) = Some func \<Longrightarrow>
   request_args request = Inr args \<Longrightarrow> func args = Inl e \<Longrightarrow>
   handleRequest request s =
     (Returned (rid, JNull), s\<lparr>logger := logger s @ [FailedToHandle e request]\<rparr>)"
  by (simp add: handleRequest_def caught_def)

lemma handleLines_count:
  "handleLines parse lines s = (rs, s') \<Longrightarrow>
     length rs + length (suspended s') =
       length (suspended s) + length (filter (\<lambda>l. parse l \<noteq> None) lines)
     \<and> outStream s' = outStream s"
proof (induction lines arbitrary: s rs s')
  case Nil
  then show ?case by simp
next
  case (Cons line lines)
  show ?case
  proof (cases "parse line")
    case None
    with Cons.prems
    have "handleLines parse lines (s\<lparr>logger := logger s @ [FailedToParse line]\<rparr>) = (rs, s')" by simp
    from Cons.IH [OF this] None show ?thesis by simp
  next
    case (Some request)
    let ?s1 = "s\<lparr>logger := logger s @ [ReceivedRequest request]\<rparr>"
    obtain d s2 where hr: "handleRequest request ?s1 = (d, s2)"
      by (cases "handleRequest request ?s1")
    note eff = handleRequest_effect [OF hr]
    show ?thesis
    proof (cases d)
      case (Returned r)
      obtain rs' s3 where hl: "handleLines parse lines s2 = (rs', s3)" by (cases "handleLines parse lines s2")
      with Cons.prems Some hr Returned have "rs = r # rs'" "s' = s3" by simp_all
      with Cons.IH [OF hl] eff Returned Some show ?thesis by simp
    next
      case (Awaiting h)
      with Cons.prems Some hr have hl: "handleLines parse lines s2 = (rs, s')" by simp
      from Cons.IH [OF hl] eff Awaiting Some show ?thesis by auto
    qed
  qed
qed

lemma suspended_fold_thenSend: "suspended (fold thenSend rs s) = suspended s"
  by (induction rs arbitrary: s) (simp_all add: thenSend_def sendResponse_def)

lemma handleInput_count:
  "length (outStream (handleInput parse input s)) + length (suspended (handleInput parse input s)) =
     length (outStream s) + length (suspended s)
       + length (filter (\<lambda>l. parse l \<noteq> None) (fst (feed (buffer s) input)))"
proof -
  obtain lines b where f: "feed (buffer s) input = (lines, b)"
    by (cases "feed (buffer s) input")
  obtain rs s' where h: "handleLines parse lines (s\<lparr>buffer := b\<rparr>) = (rs, s')"
    by (cases "handleLines parse lines (s\<lparr>buffer := b\<rparr>)")
  from handleLines_count [OF h] show ?thesis
    by (simp add: handleInput_def f h outStream_fold_thenSend suspended_fold_thenSend)
qed

lemma resumeAll_effect:
  "resumeAll outcome ws s = (rs, s') \<Longrightarrow>
     rs = map (\<lambda>w. (snd (snd w), case outcome of Inl e \<Rightarrow> JNull | Inr v \<Rightarrow> v)) ws
     \<and> outStream s' = outStream s \<and> suspended s' = suspended s"
proof (induction ws arbitrary: s rs s')
  case Nil
  then show ?case by simp
next
  case (Cons w ws)
  obtain r s1 where r1: "resumeRequest outcome (fst (snd w)) (snd (snd w)) s = (r, s1)"
    by (cases "resumeRequest outcome (fst (snd w)) (snd (snd w)) s")
  obtain rs' s2 where r2: "resumeAll outcome ws s1 = (rs', s2)"
    by (cases "resumeAll outcome ws s1")
  from r1 have a: "r = (snd (snd w), case outcome of Inl e \<Rightarrow> JNull | Inr v \<Rightarrow> v)"
    and b: "outStream s1 = outStream s" "suspended s1 = suspended s"
    by (auto simp: resumeRequest_def split: sum.splits)
  from Cons.prems r1 r2 have "rs = r # rs'" "s' = s2" by simp_all
  with Cons.IH [OF r2] a b show ?case by simp
qed

lemma settle_effect:
  "outStream (settle h outcome s) =
     outStream s @ map (\<lambda>w. encode (snd (snd w), case outcome of Inl e \<Rightarrow> JNull | Inr v \<Rightarrow> v))
                     (filter (\<lambda>w. fst w = h) (suspended s))
   \<and> suspended (settle h outcome s) = filter (\<lambda>w. fst w \<noteq> h) (suspended s)"
proof -
  let ?s0 = "s\<lparr>suspended := filter (\<lambda>w. fst w \<noteq> h) (suspended s)\<rparr>"
  obtain rs s' where r: "resumeAll outcome (filter (\<lambda>w. fst w = h) (suspended s)) ?s0 = (rs, s')"
    by (cases "resumeAll outcome (filter (\<lambda>w. fst w = h) (suspended s)) ?s0")
  from resumeAll_effect [OF r] show ?thesis
    by (simp add: settle_def r outStream_fold_thenSend suspended_fold_thenSend comp_def)
qed

lemma handleLines_single:
  "parse line = Some request \<Longrightarrow>
   handleLines parse [line] s =
     (case handleRequest request (s\<lparr>logger := logger s @ [ReceivedRequest request]\<rparr>) of
        (Returned r, s') \<Rightarrow> ([r], s')
      | (Awaiting h, s') \<Rightarrow> ([], s'))"
  by (simp split: prod.splits dispatch.splits)

lemma handleLines_skip:
  "parse line = None \<Longrightarrow>
   handleLines parse (line # lines) s
     = handleLines parse lines (s\<lparr>logger := logger s @ [FailedToParse line]\<rparr>)"
  by simp

lemma handleLines_append:
  "handleLines parse (ls1 @ ls2) s =
     (fst (handleLines parse ls1 s) @ fst (handleLines parse ls2 (snd (handleLines parse ls1 s))),
      snd (handleLines parse ls2 (snd (handleLines parse ls1 s))))"
proof (induction ls1 arbitrary: s)
  case Nil
  show ?case by simp
next
  case (Cons line lines)
  show ?case
  proof (cases "parse line")
    case None
    with Cons.IH [of "s\<lparr>logger := logger s @ [FailedToParse line]\<rparr>"] show ?thesis by simp
  next
    case (Some request)
    let ?s1 = "s\<lparr>logger := logger s @ [ReceivedRequest request]\<rparr>"
    obtain d s2 where hr: "handleRequest request ?s1 = (d, s2)"
      by (cases "handleRequest request ?s1")
    from Cons.IH [of s2] Some hr show ?thesis
      by (cases d) (simp_all add: split_beta)
  qed
qed

lemma handleInput_written:
  "outStream (handleInput parse input s) =
     outStream s @ map encode (fst (handleLines parse (fst (feed (buffer s) input))
                                      (s\<lparr>buffer := snd (feed (buffer s) input)\<rparr>)))
   \<and> suspended (handleInput parse input s) =
       suspended (snd (handleLines parse (fst (feed (buffer s) input))
                         (s\<lparr>buffer := snd (feed (buffer s) input)\<rparr>)))"
proof -
  obtain lines b where f: "feed (buffer s) input = (lines, b)"
    by (cases "feed (buffer s) input")
  obtain rs s' where h: "handleLines parse lines (s\<lparr>buffer := b\<rparr>) = (rs, s')"
    by (cases "handleLines parse lines (s\<lparr>buffer := b\<rparr>)")
  from handleLines_count [OF h] show ?thesis
    by (simp add: handleInput_def f h outStream_fold_thenSend suspended_fold_thenSend)
qed

text \<open>
  C3. Every line that decodes gives rise to exactly one call of \<^verbatim>\<open>handleRequest\<close>, which
  either returns a response, written as one line, or is suspended on a promise. The loop
  over a line that decodes to \<open>request\<close> is the call of \<^verbatim>\<open>handleRequest\<close> on \<open>request\<close>: its
  response, if it returns one, is the response of the line, and its state is the state
  after the line. The loop over the lines \<open>ls1\<close> followed by \<open>ls2\<close> is the loop over \<open>ls1\<close>
  and then the loop over \<open>ls2\<close> from the state that \<open>ls1\<close> left, whatever faults the
  requests of \<open>ls1\<close> met; the lines written for a chunk are the responses returned by
  the loop over its lines, in order. So a chunk raises the number of lines written plus
  the number of suspended calls by the number of its lines that decode. When a promise
  settles, each call suspended on it writes exactly one response and is no longer
  suspended; a rejection gives the payload \<^verbatim>\<open>null\<close>. Whenever the \<^verbatim>\<open>catch\<close> block has run,
  the payload of the response is \<^verbatim>\<open>null\<close>: in particular for an unknown function name and
  for an error raised by the provider. This holds whatever function \<open>parse\<close> stands for
  \<^verbatim>\<open>JSON.parse\<close>.
\<close>

theorem every_request_one_response:
  "(parse line = Some request \<longrightarrow>
      handleLines parse [line] s =
        (case handleRequest request (s\<lparr>logger := logger s @ [ReceivedRequest request]\<rparr>) of
           (Returned r, s') \<Rightarrow> ([r], s')
         | (Awaiting h', s') \<Rightarrow> ([], s')))
   \<and> handleLines parse (ls1 @ ls2) s =
       (fst (handleLines parse ls1 s) @ fst (handleLines parse ls2 (snd (handleLines parse ls1 s))),
        snd (handleLines parse ls2 (snd (handleLines parse ls1 s))))
   \<and> outStream (handleInput parse input s) =
       outStream s @ map encode (fst (handleLines parse (fst (feed (buffer s) input))
                                        (s\<lparr>buffer := snd (feed (buffer s) input)\<rparr>)))
   \<and> suspended (handleInput parse input s) =
       suspended (snd (handleLines parse (fst (feed (buffer s) input))
                         (s\<lparr>buffer := snd (feed (buffer s) input)\<rparr>)))
   \<and> length (outStream (handleInput parse input s)) + length (suspended (handleInput parse input s)) =
       length (outStream s) + length (suspended s)
         + length (filter (\<lambda>l. parse l \<noteq> None) (fst (feed (buffer s) input)))
   \<and> outStream (settle h outcome s) =
       outStream s @ map (\<lambda>w. encode (snd (snd w), case outcome of Inl e \<Rightarrow> JNull | Inr v \<Rightarrow> v))
                       (filter (\<lambda>w. fst w = h) (suspended s))
   \<and> suspended (settle h outcome s) = filter (\<lambda>w. fst w \<noteq> h) (suspended s)
   \<and> (\<forall>r s' e. handleRequest request s = (Returned r, s') \<longrightarrow>
         logger s' = logger s @ [FailedToHandle e request] \<longrightarrow> snd r = JNull)
   \<and> (\<forall>a rid f. agent s = Some a \<longrightarrow> js_index request 0 = Inr rid \<longrightarrow>
         request_func request = Inr f \<longrightarrow> f \<noteq> JStr ''cancelRequest'' \<longrightarrow>
         lookup a (ToPropertyKey f) = None \<longrightarrow>
         fst (handleRequest request s) = Returned (rid, JNull))
   \<and> (\<forall>a rid f func args e. agent s = Some a \<longrightarrow> js_index request 0 = Inr rid \<longrightarrow>
         request_func request = Inr f \<longrightarrow> f \<noteq> JStr ''cancelRequest'' \<longrightarrow>
         lookup a (ToPropertyKey f) = Some func \<longrightarrow> request_args request = Inr args \<longrightarrow>
         func args = Inl e \<longrightarrow>
         fst (handleRequest request s) = Returned (rid, JNull))"
proof -
  have c0: "parse line = Some request \<longrightarrow>
      handleLines parse [line] s =
        (case handleRequest request (s\<lparr>logger := logger s @ [ReceivedRequest request]\<rparr>) of
           (Returned r, s') \<Rightarrow> ([r], s')
         | (Awaiting h', s') \<Rightarrow> ([], s'))"
    using handleLines_single [of parse line request s] by blast
  note ca = handleLines_append [of parse ls1 ls2 s]
  note cw = handleInput_written [of parse input s]
  have c1: "length (outStream (handleInput parse input s)) + length (suspended (handleInput parse input s)) =
     length (outStream s) + length (suspended s)
       + length (filter (\<lambda>l. parse l \<noteq> None) (fst (feed (buffer s) input)))"
    by (rule handleInput_count)
  note c2 = settle_effect [of h outcome s]
  have c3: "\<forall>r s' e. handleRequest request s = (Returned r, s') \<longrightarrow>
         logger s' = logger s @ [FailedToHandle e request] \<longrightarrow> snd r = JNull"
    using handleRequest_fault_null by blast
  have c4: "\<forall>a rid f. agent s = Some a \<longrightarrow> js_index request 0 = Inr rid \<longrightarrow>
         request_func request = Inr f \<longrightarrow> f \<noteq> JStr ''cancelRequest'' \<longrightarrow>
         lookup a (ToPropertyKey f) = None \<longrightarrow>
         fst (handleRequest request s) = Returned (rid, JNull)"
    by (simp add: handleRequest_unknown)
  have c5: "\<forall>a rid f func args e. agent s = Some a \<longrightarrow> js_index request 0 = Inr rid \<longrightarrow>
         request_func request = Inr f \<longrightarrow> f \<noteq> JStr ''cancelRequest'' \<longrightarrow>
         lookup a (ToPropertyKey f) = Some func \<longrightarrow> request_args request = Inr args \<longrightarrow>
         func args = Inl e \<longrightarrow>
         fst (handleRequest request s) = Returned (rid, JNull)"
    by (simp add: handleRequest_throws)
  from c0 ca cw c1 c2 c3 c4 c5 show ?thesis by (intro conjI) (erule conjunct1 conjunct2 | assumption)+
qed

lemma sample_lines:
  \<open>feed [] sample_input
   = ([''[5,{"func":"nope","args":[]}]'' @ [newline], ''[6,{"func":"fail","args":[]}]'' @ [newline],
       ''[7,{"func":"ping","args":[]}]'' @ [newline], ''[8,{"func":"slow","args":[]}]'' @ [newline],
       ''junk'' @ [newline]], [])\<close>
  by code_simp

lemma sample_parse:
  \<open>JSON_parse (''[5,{"func":"nope","args":[]}]'' @ [newline]) = Some (call 5 ''nope'' [])\<close>
  \<open>JSON_parse (''[6,{"func":"fail","args":[]}]'' @ [newline]) = Some (call 6 ''fail'' [])\<close>
  \<open>JSON_parse (''[7,{"func":"ping","args":[]}]'' @ [newline]) = Some (call 7 ''ping'' [])\<close>
  \<open>JSON_parse (''[8,{"func":"slow","args":[]}]'' @ [newline]) = Some (call 8 ''slow'' [])\<close>
  \<open>JSON_parse (''junk'' @ [newline]) = None\<close>
  by code_simp+

lemma bound_sample:
  "agent (bind names sample initial) = Some sample"
  "buffer (bind names sample initial) = []"
  "outStream (bind names sample initial) = []"
  "suspended (bind names sample initial) = []"
  "cancelled (bind names sample initial) = []"
  "ongoingRequests (bind names sample initial) = (\<lambda>k. None)"
  by (simp_all add: bind_def initial_def)

lemma call_parts:
  "js_index (call i name args) 0 = Inr (JNum i)"
  "request_func (call i name args) = Inr (JStr name)"
  "request_args (call i name args) = Inr (JArr args)"
  "request_target (call i name (t # ts)) = Inr t"
  by (simp_all add: call_def request_func_def request_args_def request_target_def own_property_def)

theorem every_request_one_response_witness:
  \<open>JSON_parse (''[7,{"func":"ping","args":[]}]'' @ [newline]) = Some (call 7 ''ping'' [])
   \<and> fst (handleLines JSON_parse [''[7,{"func":"ping","args":[]}]'' @ [newline]] (bind [] sample initial))
       = [(JNum 7, JStr ''pong'')]
   \<and> length (outStream (handleInput JSON_parse sample_input (bind [] sample initial)))
     + length (suspended (handleInput JSON_parse sample_input (bind [] sample initial))) = 4
   \<and> fst (handleRequest (call 5 ''nope'' []) (bind [] sample initial)) = Returned (JNum 5, JNull)
   \<and> fst (handleRequest (call 6 ''fail'' []) (bind [] sample initial)) = Returned (JNum 6, JNull)\<close>
proof -
  note t0 = every_request_one_response [where parse = JSON_parse
      and line = \<open>''[7,{"func":"ping","args":[]}]'' @ [newline]\<close> and request = "call 7 ''ping'' []"
      and s = "bind [] sample initial"]
  note t1 = every_request_one_response [where parse = JSON_parse and input = sample_input
      and s = "bind [] sample initial" and request = "call 5 ''nope'' []"]
  note t2 = every_request_one_response [where s = "bind [] sample initial"
      and request = "call 6 ''fail'' []"]
  have l1: "lookup sample (ToPropertyKey (JStr ''nope'')) = None"
    by (simp add: sample_def)
  have l2: "lookup sample (ToPropertyKey (JStr ''fail'')) = Some (\<lambda>args. Inl (AgentError (JStr ''boom'')))"
    by (simp add: sample_def)
  have e: "fst (case handleRequest (call 7 ''ping'' [])
                  ((bind [] sample initial)\<lparr>logger := logger (bind [] sample initial)
                      @ [ReceivedRequest (call 7 ''ping'' [])]\<rparr>) of
             (Returned r, s') \<Rightarrow> ([r], s')
           | (Awaiting h', s') \<Rightarrow> ([], s')) = [(JNum 7, JStr ''pong'')]"
    by code_simp
  from t0 [THEN conjunct1] sample_parse(3)
  have z: \<open>fst (handleLines JSON_parse [''[7,{"func":"ping","args":[]}]'' @ [newline]] (bind [] sample initial))
       = [(JNum 7, JStr ''pong'')]\<close>
    by (simp only: e)
  from t1 [THEN conjunct2, THEN conjunct2, THEN conjunct2, THEN conjunct2, THEN conjunct1]
  have a: "length (outStream (handleInput JSON_parse sample_input (bind [] sample initial)))
     + length (suspended (handleInput JSON_parse sample_input (bind [] sample initial))) = 4"
    by (simp only: bound_sample sample_lines sample_parse fst_conv filter.simps list.size) simp
  from t1 [THEN conjunct2, THEN conjunct2, THEN conjunct2, THEN conjunct2, THEN conjunct2, THEN conjunct2, THEN conjunct2, THEN conjunct2, THEN conjunct1]
  have b: "fst (handleRequest (call 5 ''nope'' []) (bind [] sample initial)) = Returned (JNum 5, JNull)"
    using l1 by (simp add: bound_sample call_parts)
  from t2 [THEN conjunct2, THEN conjunct2, THEN conjunct2, THEN conjunct2, THEN conjunct2, THEN conjunct2, THEN conjunct2, THEN conjunct2, THEN conjunct2]
  have c: "fst (handleRequest (call 6 ''fail'' []) (bind [] sample initial)) = Returned (JNum 6, JNull)"
    using l2 by (simp add: bound_sample call_parts)
  from sample_parse(3) z a b c show ?thesis by simp
qed

section \<open>Cancellation\<close>

lemma handleRequest_pending:
  "agent s = Some a \<Longrightarrow> js_index request 0 = Inr rid \<Longrightarrow> request_func request = Inr f \<Longrightarrow>
   f \<noteq> JStr ''cancelRequest'' \<Longrightarrow> lookup a (ToPropertyKey f) = Some func \<Longrightarrow>
   request_args request = Inr args \<Longrightarrow> func args = Inr (Thenable h) \<Longrightarrow>
   handleRequest request s =
     (Awaiting h,
      s\<lparr>ongoingRequests := (ongoingRequests s)(ToPropertyKey rid \<mapsto> h),
        suspended := suspended s @ [(h, request, rid)]\<rparr>)"
  by (simp add: handleRequest_def)

lemma handleRequest_cancel:
  "agent s = Some a \<Longrightarrow> js_index request 0 = Inr rid \<Longrightarrow>
   request_func request = Inr (JStr ''cancelRequest'') \<Longrightarrow>
   cancelRequest request s = Inr (b, s') \<Longrightarrow>
   handleRequest request s = (Returned (rid, JBool b), s')"
  by (simp add: handleRequest_def)

lemma show_int_examples:
  "show_int 3 = ''3''" "show_int 7 = ''7''" "show_int 8 = ''8''" "show_int 9 = ''9''"
  by code_simp+

lemma sample_slow:
  "handleRequest (call 8 ''slow'' []) (bind [] sample initial) =
     (Awaiting (CancelablePromise 4),
      (bind [] sample initial)
        \<lparr>ongoingRequests := (\<lambda>k. None)(''8'' \<mapsto> CancelablePromise 4),
         suspended := [(CancelablePromise 4, call 8 ''slow'' [], JNum 8)]\<rparr>)"
proof -
  have "lookup sample (ToPropertyKey (JStr ''slow'')) = Some (\<lambda>args. Inr (Thenable (CancelablePromise 4)))"
    by (simp add: sample_def)
  from handleRequest_pending [OF bound_sample(1) call_parts(1) call_parts(2) _ this call_parts(3)]
  show ?thesis by (simp add: bound_sample show_int_examples)
qed

lemma sample_plain:
  "handleRequest (call 8 ''plain'' []) (bind [] sample initial) =
     (Awaiting (PlainPromise 5),
      (bind [] sample initial)
        \<lparr>ongoingRequests := (\<lambda>k. None)(''8'' \<mapsto> PlainPromise 5),
         suspended := [(PlainPromise 5, call 8 ''plain'' [], JNum 8)]\<rparr>)"
proof -
  have "lookup sample (ToPropertyKey (JStr ''plain'')) = Some (\<lambda>args. Inr (Thenable (PlainPromise 5)))"
    by (simp add: sample_def)
  from handleRequest_pending [OF bound_sample(1) call_parts(1) call_parts(2) _ this call_parts(3)]
  show ?thesis by (simp add: bound_sample show_int_examples)
qed

text \<open>
  C6. When the registry holds an entry for the target id, \<^verbatim>\<open>cancelRequest\<close> returns true
  and removes that entry and no other. It calls \<^verbatim>\<open>cancel()\<close> on the promise once if the
  promise is a \<^verbatim>\<open>CancelablePromise\<close> and not at all otherwise; in both cases the call of
  \<^verbatim>\<open>handleRequest\<close> that awaits the promise stays suspended on it, and nothing is written.
\<close>

theorem cancel_tracked_entry:
  assumes "request_target request = Inr t" and "ongoingRequests s (ToPropertyKey t) = Some h"
  shows "(case cancelRequest request s of
            Inl e \<Rightarrow> False
          | Inr (b, s') \<Rightarrow>
              b \<and> ongoingRequests s' = (ongoingRequests s)(ToPropertyKey t := None)
              \<and> cancelled s' = (if is_cancelable h then cancelled s @ [h] else cancelled s)
              \<and> suspended s' = suspended s \<and> outStream s' = outStream s
              \<and> agent s' = agent s \<and> buffer s' = buffer s)
       \<and> (\<forall>a rid. agent s = Some a \<longrightarrow> js_index request 0 = Inr rid \<longrightarrow>
            request_func request = Inr (JStr ''cancelRequest'') \<longrightarrow>
            fst (handleRequest request s) = Returned (rid, JBool True))"
proof -
  let ?s' = "(if is_cancelable h then s\<lparr>cancelled := cancelled s @ [h]\<rparr> else s)
      \<lparr>ongoingRequests := (ongoingRequests s)(ToPropertyKey t := None)\<rparr>"
  have c: "cancelRequest request s = Inr (True, ?s')"
    using assms by (simp add: cancelRequest_def)
  have "fst (handleRequest request s) = Returned (rid, JBool True)"
    if "agent s = Some a" "js_index request 0 = Inr rid"
      "request_func request = Inr (JStr ''cancelRequest'')" for a rid
    using handleRequest_cancel [OF that c] by simp
  with c show ?thesis by simp
qed

theorem cancel_tracked_entry_witness:
  "(case cancelRequest (call 9 ''cancelRequest'' [JNum 8])
           (snd (handleRequest (call 8 ''slow'' []) (bind [] sample initial))) of
      Inl e \<Rightarrow> False
    | Inr (b, s') \<Rightarrow>
        b \<and> ongoingRequests s' ''8'' = None \<and> cancelled s' = [CancelablePromise 4]
        \<and> suspended s' = [(CancelablePromise 4, call 8 ''slow'' [], JNum 8)])
   \<and> (case cancelRequest (call 9 ''cancelRequest'' [JNum 8])
           (snd (handleRequest (call 8 ''plain'' []) (bind [] sample initial))) of
      Inl e \<Rightarrow> False
    | Inr (b, s') \<Rightarrow>
        b \<and> ongoingRequests s' ''8'' = None \<and> cancelled s' = []
        \<and> suspended s' = [(PlainPromise 5, call 8 ''plain'' [], JNum 8)])
   \<and> fst (handleRequest (call 9 ''cancelRequest'' [JNum 8])
           (snd (handleRequest (call 8 ''slow'' []) (bind [] sample initial))))
       = Returned (JNum 9, JBool True)"
proof -
  let ?c = "call 9 ''cancelRequest'' [JNum 8]"
  let ?s = "snd (handleRequest (call 8 ''slow'' []) (bind [] sample initial))"
  let ?p = "snd (handleRequest (call 8 ''plain'' []) (bind [] sample initial))"
  have t: "request_target ?c = Inr (JNum 8)" by (rule call_parts)
  have s: "ongoingRequests ?s (ToPropertyKey (JNum 8)) = Some (CancelablePromise 4)"
    by (simp add: sample_slow show_int_examples)
  have p: "ongoingRequests ?p (ToPropertyKey (JNum 8)) = Some (PlainPromise 5)"
    by (simp add: sample_plain show_int_examples)
  have a: "agent ?s = Some sample" by (simp add: sample_slow bound_sample)
  from cancel_tracked_entry [OF t s] cancel_tracked_entry [OF t p] a
  show ?thesis
    by (simp add: sample_slow sample_plain bound_sample show_int_examples call_parts
        split: sum.splits prod.splits)
qed

section \<open>The registry of ongoing requests\<close>

lemma handleRequest_awaiting:
  "handleRequest request s = (Awaiting h, s') \<Longrightarrow> js_index request 0 = Inr rid \<Longrightarrow>
     s' = s\<lparr>ongoingRequests := (ongoingRequests s)(ToPropertyKey rid \<mapsto> h),
            suspended := suspended s @ [(h, request, rid)]\<rparr>"
  unfolding handleRequest_def caught_def cancelRequest_def
  by (auto split: option.splits sum.splits result.splits if_splits prod.splits)

lemma ongoingRequests_fold_thenSend: "ongoingRequests (fold thenSend rs s) = ongoingRequests s"
  by (induction rs arbitrary: s) (simp_all add: thenSend_def sendResponse_def)

lemma resumeAll_fulfilled:
  "resumeAll (Inr v) ws s = (rs, s') \<Longrightarrow>
     ongoingRequests s' k =
       (if k \<in> (\<lambda>w. ToPropertyKey (snd (snd w))) ` set ws then None else ongoingRequests s k)"
proof (induction ws arbitrary: s rs s')
  case Nil
  then show ?case by simp
next
  case (Cons w ws)
  let ?s1 = "s\<lparr>ongoingRequests := (ongoingRequests s)(ToPropertyKey (snd (snd w)) := None)\<rparr>"
  obtain rs' s2 where r2: "resumeAll (Inr v) ws ?s1 = (rs', s2)"
    by (cases "resumeAll (Inr v) ws ?s1")
  with Cons.prems have "s' = s2" by (simp add: resumeRequest_def)
  with Cons.IH [OF r2] show ?case by auto
qed

lemma resumeAll_rejected:
  "resumeAll (Inl e) ws s = (rs, s') \<Longrightarrow> ongoingRequests s' = ongoingRequests s"
proof (induction ws arbitrary: s rs s')
  case Nil
  then show ?case by simp
next
  case (Cons w ws)
  let ?s1 = "s\<lparr>logger := logger s @ [FailedToHandle e (fst (snd w))]\<rparr>"
  obtain rs' s2 where r2: "resumeAll (Inl e) ws ?s1 = (rs', s2)"
    by (cases "resumeAll (Inl e) ws ?s1")
  with Cons.prems have "s' = s2" by (simp add: resumeRequest_def)
  with Cons.IH [OF r2] show ?case by simp
qed

lemma settle_fulfilled:
  "ongoingRequests (settle h (Inr v) s) k =
     (if k \<in> (\<lambda>w. ToPropertyKey (snd (snd w))) ` set (filter (\<lambda>w. fst w = h) (suspended s))
      then None else ongoingRequests s k)"
proof -
  let ?s0 = "s\<lparr>suspended := filter (\<lambda>w. fst w \<noteq> h) (suspended s)\<rparr>"
  obtain rs s' where r: "resumeAll (Inr v) (filter (\<lambda>w. fst w = h) (suspended s)) ?s0 = (rs, s')"
    by (cases "resumeAll (Inr v) (filter (\<lambda>w. fst w = h) (suspended s)) ?s0")
  from resumeAll_fulfilled [OF r, of k] show ?thesis
    by (simp add: settle_def r ongoingRequests_fold_thenSend)
qed

lemma settle_rejected:
  "ongoingRequests (settle h (Inl e) s) = ongoingRequests s"
proof -
  let ?s0 = "s\<lparr>suspended := filter (\<lambda>w. fst w \<noteq> h) (suspended s)\<rparr>"
  obtain rs s' where r: "resumeAll (Inl e) (filter (\<lambda>w. fst w = h) (suspended s)) ?s0 = (rs, s')"
    by (cases "resumeAll (Inl e) (filter (\<lambda>w. fst w = h) (suspended s)) ?s0")
  from resumeAll_rejected [OF r] show ?thesis
    by (simp add: settle_def r ongoingRequests_fold_thenSend)
qed

lemma encode_examples:
  "encode (JNum 8, JNull) = ''[8,null]'' @ [newline]"
  "encode (JNum 7, JNull) = ''[7,null]'' @ [newline]"
  "encode (JNum 8, JStr ''done'') = ''[8,'' @ [dquote] @ ''done'' @ [dquote] @ '']'' @ [newline]"
  by code_simp+

text \<open>
  C2. The registry is a map from keys to promises, so it holds at most one entry for an
  id. The removal after the \<^verbatim>\<open>await\<close> is skipped when the awaited promise rejects: the
  request for \<^verbatim>\<open>plain\<close> with id 8 is answered with \<^verbatim>\<open>[8,null]\<close> and is no longer
  suspended, and the registry still holds the rejected promise under 8. After that a
  \<^verbatim>\<open>cancelRequest\<close> for 8 finds the entry and reports \<open>True\<close>. Had the promise been
  fulfilled, the entry would be gone.
\<close>

theorem rejected_request_stays_registered:
  "outStream (settle (PlainPromise 5) (Inl (AgentError (JStr ''boom'')))
       (snd (handleRequest (call 8 ''plain'' []) (bind [] sample initial))))
     = [''[8,null]'' @ [newline]]
   \<and> suspended (settle (PlainPromise 5) (Inl (AgentError (JStr ''boom'')))
       (snd (handleRequest (call 8 ''plain'' []) (bind [] sample initial)))) = []
   \<and> ongoingRequests (settle (PlainPromise 5) (Inl (AgentError (JStr ''boom'')))
       (snd (handleRequest (call 8 ''plain'' []) (bind [] sample initial)))) ''8''
     = Some (PlainPromise 5)
   \<and> (case cancelRequest (call 9 ''cancelRequest'' [JNum 8])
         (settle (PlainPromise 5) (Inl (AgentError (JStr ''boom'')))
           (snd (handleRequest (call 8 ''plain'' []) (bind [] sample initial)))) of
         Inl e \<Rightarrow> False | Inr (b, s') \<Rightarrow> b)
   \<and> ongoingRequests (settle (PlainPromise 5) (Inr (JStr ''done''))
       (snd (handleRequest (call 8 ''plain'' []) (bind [] sample initial)))) ''8'' = None"
proof -
  let ?s = "snd (handleRequest (call 8 ''plain'' []) (bind [] sample initial))"
  let ?r = "settle (PlainPromise 5) (Inl (AgentError (JStr ''boom''))) ?s"
  have a: "outStream ?r = [''[8,null]'' @ [newline]]" and b: "suspended ?r = []"
    using settle_effect [of "PlainPromise 5" "Inl (AgentError (JStr ''boom''))" ?s]
    by (simp_all add: sample_plain bound_sample encode_examples)
  have c: "ongoingRequests ?r ''8'' = Some (PlainPromise 5)"
    by (simp add: settle_rejected sample_plain)
  have "request_target (call 9 ''cancelRequest'' [JNum 8]) = Inr (JNum 8)" by (rule call_parts)
  with c have d: "(case cancelRequest (call 9 ''cancelRequest'' [JNum 8]) ?r of
         Inl e \<Rightarrow> False | Inr (b, s') \<Rightarrow> b)"
    by (simp add: cancelRequest_def show_int_examples)
  have e: "ongoingRequests (settle (PlainPromise 5) (Inr (JStr ''done'')) ?s) ''8'' = None"
    by (simp add: settle_fulfilled sample_plain show_int_examples)
  from a b c d e show ?thesis by simp
qed

text \<open>
  C10. Two requests with the same id are dispatched one after the other and both are
  suspended on a promise. The second insert replaces the entry of the first. When either
  promise is then fulfilled, the entry under the id is deleted, and a \<^verbatim>\<open>cancelRequest\<close> for
  the id returns false and changes nothing, while (the promises being different) the call
  for the other request is still suspended on its promise.
\<close>

theorem reused_id_shares_entry:
  assumes "handleRequest r1 s = (Awaiting h1, s1)" and "handleRequest r2 s1 = (Awaiting h2, s2)"
    and "js_index r1 0 = Inr rid" and "js_index r2 0 = Inr rid"
    and "request_target c = Inr rid"
  shows "ongoingRequests s1 (ToPropertyKey rid) = Some h1
       \<and> ongoingRequests s2 (ToPropertyKey rid) = Some h2
       \<and> (\<forall>h \<in> {h1, h2}. \<forall>v.
            ongoingRequests (settle h (Inr v) s2) (ToPropertyKey rid) = None
            \<and> cancelRequest c (settle h (Inr v) s2) = Inr (False, settle h (Inr v) s2))
       \<and> (h1 \<noteq> h2 \<longrightarrow>
            (\<forall>v. (h2, r2, rid) \<in> set (suspended (settle h1 (Inr v) s2)))
            \<and> (\<forall>v. (h1, r1, rid) \<in> set (suspended (settle h2 (Inr v) s2))))"
proof -
  note e1 = handleRequest_awaiting [OF assms(1) assms(3)]
  note e2 = handleRequest_awaiting [OF assms(2) assms(4)]
  have su: "suspended s2 = suspended s @ [(h1, r1, rid), (h2, r2, rid)]"
    by (simp add: e1 e2)
  have a: "ongoingRequests s1 (ToPropertyKey rid) = Some h1" by (simp add: e1)
  have b: "ongoingRequests s2 (ToPropertyKey rid) = Some h2" by (simp add: e2)
  have gone: "ongoingRequests (settle h (Inr v) s2) (ToPropertyKey rid) = None"
    if "h \<in> {h1, h2}" for h v
    using that by (auto simp: settle_fulfilled su)
  have c: "\<forall>h \<in> {h1, h2}. \<forall>v.
            ongoingRequests (settle h (Inr v) s2) (ToPropertyKey rid) = None
            \<and> cancelRequest c (settle h (Inr v) s2) = Inr (False, settle h (Inr v) s2)"
    using gone assms(5) by (simp add: cancelRequest_def)
  have d: "h1 \<noteq> h2 \<longrightarrow>
            (\<forall>v. (h2, r2, rid) \<in> set (suspended (settle h1 (Inr v) s2)))
            \<and> (\<forall>v. (h1, r1, rid) \<in> set (suspended (settle h2 (Inr v) s2)))"
    by (simp add: settle_effect su)
  from a b c d show ?thesis by simp
qed

theorem reused_id_shares_entry_witness:
  "ongoingRequests (snd (handleRequest (call 8 ''plain'' [])
        (snd (handleRequest (call 8 ''slow'' []) (bind [] sample initial))))) ''8''
     = Some (PlainPromise 5)
   \<and> ongoingRequests (settle (CancelablePromise 4) (Inr (JStr ''done''))
        (snd (handleRequest (call 8 ''plain'' [])
          (snd (handleRequest (call 8 ''slow'' []) (bind [] sample initial)))))) ''8'' = None
   \<and> cancelRequest (call 9 ''cancelRequest'' [JNum 8])
        (settle (CancelablePromise 4) (Inr (JStr ''done''))
          (snd (handleRequest (call 8 ''plain'' [])
            (snd (handleRequest (call 8 ''slow'' []) (bind [] sample initial))))))
     = Inr (False, settle (CancelablePromise 4) (Inr (JStr ''done''))
          (snd (handleRequest (call 8 ''plain'' [])
            (snd (handleRequest (call 8 ''slow'' []) (bind [] sample initial))))))
   \<and> (PlainPromise 5, call 8 ''plain'' [], JNum 8)
       \<in> set (suspended (settle (CancelablePromise 4) (Inr (JStr ''done''))
          (snd (handleRequest (call 8 ''plain'' [])
            (snd (handleRequest (call 8 ''slow'' []) (bind [] sample initial)))))))"
proof -
  let ?s = "bind [] sample initial"
  let ?s1 = "snd (handleRequest (call 8 ''slow'' []) ?s)"
  let ?s2 = "snd (handleRequest (call 8 ''plain'' []) ?s1)"
  have p1: "handleRequest (call 8 ''slow'' []) ?s = (Awaiting (CancelablePromise 4), ?s1)"
    by (simp add: sample_slow)
  have ag: "agent ?s1 = Some sample" by (simp add: sample_slow bound_sample)
  have lk: "lookup sample (ToPropertyKey (JStr ''plain'')) = Some (\<lambda>args. Inr (Thenable (PlainPromise 5)))"
    by (simp add: sample_def)
  have p2: "handleRequest (call 8 ''plain'' []) ?s1 = (Awaiting (PlainPromise 5), ?s2)"
    using handleRequest_pending [OF ag call_parts(1) call_parts(2) _ lk call_parts(3)]
    by simp
  from reused_id_shares_entry [OF p1 p2 call_parts(1) call_parts(1) call_parts(4),
      of 9 "''cancelRequest''" "[]"]
  show ?thesis by (simp add: show_int_examples)
qed

section \<open>Events of the provider\<close>

lemma listeners_fold_thenSend: "listeners (fold thenSend rs s) = listeners s"
  by (induction rs arbitrary: s) (simp_all add: thenSend_def sendResponse_def)

lemma handleLines_listeners:
  "handleLines parse lines s = (rs, s') \<Longrightarrow> listeners s' = listeners s"
proof (induction lines arbitrary: s rs s')
  case Nil
  then show ?case by simp
next
  case (Cons line lines)
  show ?case
  proof (cases "parse line")
    case None
    with Cons.prems
    have "handleLines parse lines (s\<lparr>logger := logger s @ [FailedToParse line]\<rparr>) = (rs, s')" by simp
    from Cons.IH [OF this] show ?thesis by simp
  next
    case (Some request)
    let ?s1 = "s\<lparr>logger := logger s @ [ReceivedRequest request]\<rparr>"
    obtain d s2 where hr: "handleRequest request ?s1 = (d, s2)"
      by (cases "handleRequest request ?s1")
    from handleRequest_effect [OF hr] have l2: "listeners s2 = listeners s" by simp
    obtain rs' s3 where hl: "handleLines parse lines s2 = (rs', s3)" by (cases "handleLines parse lines s2")
    from Cons.prems Some hr hl have "s' = s3" by (cases d) simp_all
    with Cons.IH [OF hl] l2 show ?thesis by simp
  qed
qed

lemma handleInput_listeners: "listeners (handleInput parse input s) = listeners s"
proof -
  obtain lines b where f: "feed (buffer s) input = (lines, b)"
    by (cases "feed (buffer s) input")
  obtain rs s' where h: "handleLines parse lines (s\<lparr>buffer := b\<rparr>) = (rs, s')"
    by (cases "handleLines parse lines (s\<lparr>buffer := b\<rparr>)")
  from handleLines_listeners [OF h] show ?thesis
    by (simp add: handleInput_def f h listeners_fold_thenSend)
qed

lemma resumeAll_listeners:
  "resumeAll outcome ws s = (rs, s') \<Longrightarrow> listeners s' = listeners s"
proof (induction ws arbitrary: s rs s')
  case Nil
  then show ?case by simp
next
  case (Cons w ws)
  obtain r s1 where r1: "resumeRequest outcome (fst (snd w)) (snd (snd w)) s = (r, s1)"
    by (cases "resumeRequest outcome (fst (snd w)) (snd (snd w)) s")
  obtain rs' s2 where r2: "resumeAll outcome ws s1 = (rs', s2)"
    by (cases "resumeAll outcome ws s1")
  from r1 have b: "listeners s1 = listeners s"
    by (auto simp: resumeRequest_def split: sum.splits)
  from Cons.prems r1 r2 have "s' = s2" by simp
  with Cons.IH [OF r2] b show ?case by simp
qed

lemma settle_listeners: "listeners (settle h outcome s) = listeners s"
proof -
  let ?s0 = "s\<lparr>suspended := filter (\<lambda>w. fst w \<noteq> h) (suspended s)\<rparr>"
  obtain rs s' where r: "resumeAll outcome (filter (\<lambda>w. fst w = h) (suspended s)) ?s0 = (rs, s')"
    by (cases "resumeAll outcome (filter (\<lambda>w. fst w = h) (suspended s)) ?s0")
  from resumeAll_listeners [OF r] show ?thesis
    by (simp add: settle_def r listeners_fold_thenSend)
qed

lemma fold_sendResponse:
  "fold (\<lambda>l. sendResponse r) ls s = s\<lparr>outStream := outStream s @ replicate (length ls) (encode r)\<rparr>"
proof (induction ls arbitrary: s)
  case Nil
  then show ?case by simp
next
  case (Cons l ls)
  then show ?case by (simp add: sendResponse_def replicate_app_Cons_same)
qed

lemma emit_effect:
  "emit a eventName ev s =
     s\<lparr>outStream := outStream s @
         replicate (length (filter (\<lambda>l. l = (a, eventName)) (listeners s))) (encode (JNum 0, ev))\<rparr>"
  by (simp add: emit_def fold_sendResponse)

lemma run_listeners:
  "\<forall>e \<in> set evs. \<not> is_bind e \<Longrightarrow> listeners (run parse names evs s) = listeners s"
proof (induction evs arbitrary: s)
  case Nil
  then show ?case by (simp add: run_def)
next
  case (Cons e evs)
  then have "listeners (step parse names e s) = listeners s"
    by (cases e) (simp_all add: handleInput_listeners settle_listeners emit_effect)
  with Cons show ?case by (simp add: run_def)
qed

lemma one_listener:
  "distinct names \<Longrightarrow> eventName \<in> set names \<Longrightarrow>
   filter (\<lambda>l. l = (a, eventName)) (map (\<lambda>n. (a, n)) names) = [(a, eventName)]"
proof (induction names)
  case Nil
  then show ?case by simp
next
  case (Cons n names)
  show ?case
  proof (cases "n = eventName")
    case True
    with Cons.prems have "eventName \<notin> set names" by simp
    then have "filter (\<lambda>l. l = (a, eventName)) (map (\<lambda>n. (a, n)) names) = []"
      by (induction names) auto
    with True show ?thesis by simp
  next
    case False
    with Cons show ?thesis by simp
  qed
qed

lemma encode_event:
  "JSON_stringify ev = Some t \<Longrightarrow> encode (JNum 0, ev) = ''[0,'' @ t @ '']'' @ [newline]"
proof -
  have "show_int 0 = ''0''" by code_simp
  then show "JSON_stringify ev = Some t \<Longrightarrow> encode (JNum 0, ev) = ''[0,'' @ t @ '']'' @ [newline]"
    by (simp add: encode_def join_def)
qed

text \<open>
  C8. A provider is bound to a \<^verbatim>\<open>StdIO\<close> object that had no listeners, under event names
  that are pairwise different; then chunks of input arrive, promises settle and events
  are emitted, in any number and order. An event that the provider now emits under one of
  the names writes exactly one line, the encoding of the pair of 0 and the event, which
  is \<^verbatim>\<open>[0,\<close> payload \<^verbatim>\<open>]\<close>; the registry and the suspended calls are as before.
\<close>

theorem event_one_unsolicited_line:
  assumes "listeners s = []" and "distinct names" and "eventName \<in> set names"
    and "\<forall>e \<in> set evs. \<not> is_bind e"
  shows "outStream (emit (ident a) eventName ev (run parse names evs (bind names a s)))
           = outStream (run parse names evs (bind names a s)) @ [encode (JNum 0, ev)]
       \<and> (\<forall>t. JSON_stringify ev = Some t \<longrightarrow> encode (JNum 0, ev) = ''[0,'' @ t @ '']'' @ [newline])
       \<and> ongoingRequests (emit (ident a) eventName ev (run parse names evs (bind names a s)))
           = ongoingRequests (run parse names evs (bind names a s))
       \<and> suspended (emit (ident a) eventName ev (run parse names evs (bind names a s)))
           = suspended (run parse names evs (bind names a s))"
proof -
  have "listeners (run parse names evs (bind names a s)) = listeners (bind names a s)"
    using assms(4) by (rule run_listeners)
  also have "\<dots> = map (\<lambda>n. (ident a, n)) names"
    using assms(1) by (simp add: bind_def)
  finally have "filter (\<lambda>l. l = (ident a, eventName)) (listeners (run parse names evs (bind names a s)))
      = [(ident a, eventName)]"
    using one_listener [OF assms(2) assms(3)] by simp
  then show ?thesis by (simp add: emit_effect encode_event)
qed

theorem event_one_unsolicited_line_witness:
  "outStream (emit 1 ''statusChanged'' (JStr ''ready'')
       (run JSON_parse [''statusChanged'', ''configUpdated''] [Data sample_input]
          (bind [''statusChanged'', ''configUpdated''] sample initial)))
     = outStream (run JSON_parse [''statusChanged'', ''configUpdated''] [Data sample_input]
          (bind [''statusChanged'', ''configUpdated''] sample initial))
       @ [''[0,'' @ [dquote] @ ''ready'' @ [dquote] @ '']'' @ [newline]]"
proof -
  have l: "listeners initial = []" by (simp add: initial_def)
  have i: "ident sample = 1" by (simp add: sample_def)
  have e: "encode (JNum 0, JStr ''ready'') = ''[0,'' @ [dquote] @ ''ready'' @ [dquote] @ '']'' @ [newline]"
    by code_simp
  from event_one_unsolicited_line [OF l, of "[''statusChanged'', ''configUpdated'']"
      "''statusChanged''" "[Data sample_input]" sample "JStr ''ready''"]
  show ?thesis by (simp add: i e)
qed

section \<open>Lines that do not decode\<close>

lemma buffer_fold_thenSend: "buffer (fold thenSend rs s) = buffer s"
  by (induction rs arbitrary: s) (simp_all add: thenSend_def sendResponse_def)

lemma handleLines_buffer:
  "handleLines parse lines s = (rs, s') \<Longrightarrow> buffer s' = buffer s"
proof (induction lines arbitrary: s rs s')
  case Nil
  then show ?case by simp
next
  case (Cons line lines)
  show ?case
  proof (cases "parse line")
    case None
    with Cons.prems
    have "handleLines parse lines (s\<lparr>logger := logger s @ [FailedToParse line]\<rparr>) = (rs, s')" by simp
    from Cons.IH [OF this] show ?thesis by simp
  next
    case (Some request)
    let ?s1 = "s\<lparr>logger := logger s @ [ReceivedRequest request]\<rparr>"
    obtain d s2 where hr: "handleRequest request ?s1 = (d, s2)"
      by (cases "handleRequest request ?s1")
    from handleRequest_effect [OF hr] have l2: "buffer s2 = buffer s" by simp
    obtain rs' s3 where hl: "handleLines parse lines s2 = (rs', s3)" by (cases "handleLines parse lines s2")
    from Cons.prems Some hr hl have "s' = s3" by (cases d) simp_all
    with Cons.IH [OF hl] l2 show ?thesis by simp
  qed
qed

lemma handleInput_buffer: "buffer (handleInput parse input s) = snd (feed (buffer s) input)"
proof -
  obtain lines b where f: "feed (buffer s) input = (lines, b)"
    by (cases "feed (buffer s) input")
  obtain rs s' where h: "handleLines parse lines (s\<lparr>buffer := b\<rparr>) = (rs, s')"
    by (cases "handleLines parse lines (s\<lparr>buffer := b\<rparr>)")
  from handleLines_buffer [OF h] show ?thesis
    by (simp add: handleInput_def f h buffer_fold_thenSend)
qed

lemma bound_bare:
  "agent (bind names bare initial) = Some bare"
  "buffer (bind names bare initial) = []"
  "outStream (bind names bare initial) = []"
  by (simp_all add: bind_def initial_def)

text \<open>
  C7, as stated, fails on a line that is JSON of another shape: \<^verbatim>\<open>[7]\<close> decodes, is
  dispatched, and is answered with the line \<^verbatim>\<open>[7,null]\<close>.
\<close>

theorem wrong_shape_is_answered:
  "JSON_parse (''[7]'' @ [newline]) = Some (JArr [JNum 7])
   \<and> outStream (handleInput JSON_parse (''[7]'' @ [newline]) (bind [] bare initial)) = [''[7,null]'' @ [newline]]"
proof -
  have p: "JSON_parse (''[7]'' @ [newline]) = Some (JArr [JNum 7])" by code_simp
  have f: "feed [] (''[7]'' @ [newline]) = ([''[7]'' @ [newline]], [])" by code_simp
  have h: "handleRequest (JArr [JNum 7]) s = caught TypeError (JArr [JNum 7]) (JNum 7, JNull) s"
    if "agent s = Some bare" for s
    using that by (simp add: handleRequest_def request_func_def)
  have "outStream (handleInput JSON_parse (''[7]'' @ [newline]) (bind [] bare initial)) = [encode (JNum 7, JNull)]"
    by (simp add: handleInput_def bound_bare f p h caught_def thenSend_def sendResponse_def
        del: append.simps)
  with p show ?thesis by (simp add: encode_examples)
qed

lemma handleLines_dispatch:
  "parse line = Some request \<Longrightarrow>
   handleLines parse (line # lines) s =
     (case handleRequest request (s\<lparr>logger := logger s @ [ReceivedRequest request]\<rparr>) of
        (Returned r, s') \<Rightarrow> (r # fst (handleLines parse lines s'), snd (handleLines parse lines s'))
      | (Awaiting h, s') \<Rightarrow> handleLines parse lines s')"
  by (simp add: split_beta split: prod.splits dispatch.splits)

text \<open>
  C7, amended. A line on which \<^verbatim>\<open>JSON.parse\<close> throws is logged and skipped: the loop goes
  on with the next lines from the same state but for the log entry, so nothing is
  written, registered or suspended for it. The framing does not depend on what the lines
  decode to: the buffer after a chunk is the one the framer leaves. A line that
  \<^verbatim>\<open>JSON.parse\<close> reads, of whatever shape, is dispatched: the value read is passed to
  \<^verbatim>\<open>handleRequest\<close>, the response it returns is the first of the responses of the loop, the
  loop goes on with the next lines from the state it leaves, and the line adds one
  response or one suspended call. This holds whatever function \<open>parse\<close> stands for
  \<^verbatim>\<open>JSON.parse\<close>.
\<close>

theorem unparseable_line_skipped:
  "(parse line = None \<longrightarrow>
      handleLines parse (line # lines) s
        = handleLines parse lines (s\<lparr>logger := logger s @ [FailedToParse line]\<rparr>)
      \<and> handleLines parse [line] s = ([], s\<lparr>logger := logger s @ [FailedToParse line]\<rparr>))
   \<and> buffer (handleInput parse input s) = snd (feed (buffer s) input)
   \<and> (parse other = Some request \<longrightarrow>
        handleLines parse (other # lines) s =
          (case handleRequest request (s\<lparr>logger := logger s @ [ReceivedRequest request]\<rparr>) of
             (Returned r, s') \<Rightarrow> (r # fst (handleLines parse lines s'), snd (handleLines parse lines s'))
           | (Awaiting h, s') \<Rightarrow> handleLines parse lines s')
        \<and> length (fst (handleLines parse [other] s))
            + length (suspended (snd (handleLines parse [other] s)))
          = length (suspended s) + 1)"
proof -
  have a: "parse line = None \<longrightarrow>
      handleLines parse (line # lines) s
        = handleLines parse lines (s\<lparr>logger := logger s @ [FailedToParse line]\<rparr>)
      \<and> handleLines parse [line] s = ([], s\<lparr>logger := logger s @ [FailedToParse line]\<rparr>)"
    by simp
  have b: "buffer (handleInput parse input s) = snd (feed (buffer s) input)"
    by (rule handleInput_buffer)
  have c: "length (fst (handleLines parse [other] s))
            + length (suspended (snd (handleLines parse [other] s)))
          = length (suspended s) + 1" if "parse other = Some request"
    using handleLines_count [of parse "[other]" s "fst (handleLines parse [other] s)"
        "snd (handleLines parse [other] s)"] that
    by simp
  have d: "parse other = Some request \<longrightarrow>
        handleLines parse (other # lines) s =
          (case handleRequest request (s\<lparr>logger := logger s @ [ReceivedRequest request]\<rparr>) of
             (Returned r, s') \<Rightarrow> (r # fst (handleLines parse lines s'), snd (handleLines parse lines s'))
           | (Awaiting h, s') \<Rightarrow> handleLines parse lines s')
        \<and> length (fst (handleLines parse [other] s))
            + length (suspended (snd (handleLines parse [other] s)))
          = length (suspended s) + 1"
    using handleLines_dispatch [of parse other request lines s] c by blast
  from a b d show ?thesis by (intro conjI)
qed

theorem unparseable_line_skipped_witness:
  "JSON_parse (''junk'' @ [newline]) = None
   \<and> handleLines JSON_parse [''junk'' @ [newline]] (bind [] bare initial)
       = ([], (bind [] bare initial)\<lparr>logger := logger (bind [] bare initial)
                 @ [FailedToParse (''junk'' @ [newline])]\<rparr>)
   \<and> buffer (handleInput JSON_parse sample_input (bind [] bare initial)) = []
   \<and> JSON_parse (''[7]'' @ [newline]) = Some (JArr [JNum 7])
   \<and> fst (handleLines JSON_parse [''[7]'' @ [newline]] (bind [] bare initial)) = [(JNum 7, JNull)]
   \<and> length (fst (handleLines JSON_parse [''[7]'' @ [newline]] (bind [] bare initial)))
       + length (suspended (snd (handleLines JSON_parse [''[7]'' @ [newline]] (bind [] bare initial)))) = 1"
proof -
  have p: "JSON_parse (''junk'' @ [newline]) = None" by (rule sample_parse)
  have q: "JSON_parse (''[7]'' @ [newline]) = Some (JArr [JNum 7])" by code_simp
  have b: "buffer (bind [] bare initial) = []" "suspended (bind [] bare initial) = []"
    by (simp_all add: bind_def initial_def)
  have e: "fst (case handleRequest (JArr [JNum 7])
                  ((bind [] bare initial)\<lparr>logger := logger (bind [] bare initial)
                      @ [ReceivedRequest (JArr [JNum 7])]\<rparr>) of
             (Returned r, s') \<Rightarrow> (r # fst (handleLines JSON_parse [] s'), snd (handleLines JSON_parse [] s'))
           | (Awaiting h, s') \<Rightarrow> handleLines JSON_parse [] s') = [(JNum 7, JNull)]"
    by code_simp
  note t = unparseable_line_skipped [where parse = JSON_parse and line = "''junk'' @ [newline]"
      and lines = "[]" and s = "bind [] bare initial" and input = sample_input
      and other = "''[7]'' @ [newline]" and request = "JArr [JNum 7]"]
  from t [THEN conjunct1] p
  have t1: "handleLines JSON_parse [''junk'' @ [newline]] (bind [] bare initial)
       = ([], (bind [] bare initial)\<lparr>logger := logger (bind [] bare initial)
                 @ [FailedToParse (''junk'' @ [newline])]\<rparr>)"
    by blast
  from t [THEN conjunct2, THEN conjunct1]
  have t2: "buffer (handleInput JSON_parse sample_input (bind [] bare initial)) = []"
    by (simp only: b sample_lines snd_conv)
  from t [THEN conjunct2, THEN conjunct2] q
  have t3: "handleLines JSON_parse [''[7]'' @ [newline]] (bind [] bare initial) =
          (case handleRequest (JArr [JNum 7])
                  ((bind [] bare initial)\<lparr>logger := logger (bind [] bare initial)
                      @ [ReceivedRequest (JArr [JNum 7])]\<rparr>) of
             (Returned r, s') \<Rightarrow> (r # fst (handleLines JSON_parse [] s'), snd (handleLines JSON_parse [] s'))
           | (Awaiting h, s') \<Rightarrow> handleLines JSON_parse [] s')"
    and t4: "length (fst (handleLines JSON_parse [''[7]'' @ [newline]] (bind [] bare initial)))
       + length (suspended (snd (handleLines JSON_parse [''[7]'' @ [newline]] (bind [] bare initial))))
       = length (suspended (bind [] bare initial)) + 1"
    by blast+
  from t3 e have t5: "fst (handleLines JSON_parse [''[7]'' @ [newline]] (bind [] bare initial)) = [(JNum 7, JNull)]"
    by (simp only:)
  from p q t1 t2 t5 t4 show ?thesis by (simp only: b list.size) simp
qed

section \<open>Encoding and decoding\<close>

lemma of_char_digit_char: "d < 10 \<Longrightarrow> (of_char (digit_char d) :: nat) = 48 + d"
  by (simp add: digit_char_def)

lemma is_digit_digit_char: "d < 10 \<Longrightarrow> is_digit (digit_char d)"
  by (simp add: is_digit_def of_char_digit_char)

lemma digit_val_digit_char: "d < 10 \<Longrightarrow> digit_val (digit_char d) = d"
  by (simp add: digit_val_def of_char_digit_char)

lemma digit_char_zero: "d < 10 \<Longrightarrow> digit_char d = CHR ''0'' \<longleftrightarrow> d = 0"
proof -
  assume d: "d < 10"
  have "(of_char (CHR ''0'') :: nat) = 48" by simp
  with of_char_digit_char [OF d] show ?thesis
    by (metis add_cancel_right_right of_char_eq_iff)
qed

lemma show_nat_digits: "list_all is_digit (show_nat n)"
proof (induction n rule: show_nat.induct)
  case (1 n)
  show ?case
  proof (cases "n < 10")
    case True
    then show ?thesis by (simp add: show_nat.simps [of n] is_digit_digit_char)
  next
    case False
    with 1 show ?thesis by (simp add: show_nat.simps [of n] is_digit_digit_char)
  qed
qed

lemma show_nat_nonempty: "show_nat n \<noteq> []"
  by (subst show_nat.simps) simp

lemma read_int_snoc: "read_int (ds @ [d]) = 10 * read_int ds + int (digit_val d)"
  by (simp add: read_int_def)

lemma read_int_show_nat: "read_int (show_nat n) = int n"
proof (induction n rule: show_nat.induct)
  case (1 n)
  show ?case
  proof (cases "n < 10")
    case True
    then show ?thesis by (simp add: show_nat.simps [of n] read_int_def digit_val_digit_char)
  next
    case False
    with 1 have "read_int (show_nat (n div 10)) = int (n div 10)" by simp
    moreover have "10 * int (n div 10) + int (n mod 10) = int n"
      by (metis mult_div_mod_eq of_nat_add of_nat_mult of_nat_numeral)
    ultimately show ?thesis using False
      by (simp add: show_nat.simps [of n] read_int_snoc digit_val_digit_char)
  qed
qed

lemma hd_show_nat: "hd (show_nat n) = CHR ''0'' \<longleftrightarrow> n = 0"
proof (induction n rule: show_nat.induct)
  case (1 n)
  show ?case
  proof (cases "n < 10")
    case True
    then show ?thesis by (simp add: show_nat.simps [of n] digit_char_zero)
  next
    case False
    with 1 have "hd (show_nat (n div 10)) = CHR ''0'' \<longleftrightarrow> n div 10 = 0" by simp
    moreover from False have "n div 10 \<noteq> 0" by simp
    ultimately show ?thesis using False
      by (simp add: show_nat.simps [of n] show_nat_nonempty)
  qed
qed

lemma takeWhile_digits:
  "list_all is_digit ds \<Longrightarrow> no_digit_ahead rest \<Longrightarrow>
   takeWhile is_digit (ds @ rest) = ds \<and> dropWhile is_digit (ds @ rest) = rest"
  by (induction ds) (auto simp: no_digit_ahead_def split: list.splits)

lemma parse_digits_show_nat:
  assumes "no_digit_ahead rest"
  shows "parse_digits (show_nat n @ rest) = Some (int n, rest)"
proof (cases "n = 0")
  case True
  have "show_nat 0 = ''0''" by code_simp
  with True show ?thesis by (simp add: parse_digits_def)
next
  case False
  obtain c cs where s: "show_nat n = c # cs"
    using show_nat_nonempty [of n] by (cases "show_nat n") auto
  with hd_show_nat [of n] False have c0: "c \<noteq> CHR ''0''" by simp
  from show_nat_digits [of n] s have dc: "is_digit c" by simp
  from takeWhile_digits [OF show_nat_digits assms, of n]
  have "takeWhile is_digit (show_nat n @ rest) = show_nat n"
    "dropWhile is_digit (show_nat n @ rest) = rest" by simp_all
  then have "parse_digits (show_nat n @ rest) = Some (read_int (show_nat n), rest)"
    using s c0 dc by (simp add: parse_digits_def del: takeWhile.simps dropWhile.simps)
  then show ?thesis by (simp add: read_int_show_nat)
qed

lemma is_digit_minus: "\<not> is_digit CHR ''-''"
  by (simp add: is_digit_def)

lemma parse_number_show_int:
  assumes "no_digit_ahead rest" and "safe_integer i"
  shows "parse_number (show_int i @ rest) = Some (JNum i, rest)"
proof (cases "i < 0")
  case True
  with assms(2) have "safe_integer (- i)" by (simp add: safe_integer_def)
  with True show ?thesis
    by (simp add: show_int_def parse_number_def parse_digits_show_nat [OF assms(1)])
next
  case False
  obtain c cs where s: "show_nat (nat i) = c # cs"
    using show_nat_nonempty [of "nat i"] by (cases "show_nat (nat i)") auto
  from show_nat_digits [of "nat i"] s have "is_digit c" by simp
  with is_digit_minus have cm: "c \<noteq> CHR ''-''" by auto
  have "parse_digits (show_nat (nat i) @ rest) = Some (int (nat i), rest)"
    by (rule parse_digits_show_nat [OF assms(1)])
  with s have "parse_digits (c # cs @ rest) = Some (int (nat i), rest)" by simp
  with False s cm assms(2) show ?thesis
    by (simp add: show_int_def parse_number_def)
qed

lemma hex_val_hex_char: "d < 16 \<Longrightarrow> hex_val (hex_char d) = Some d"
  by (auto simp: hex_val_def hex_char_def Let_def)

lemma unicode_escape_hex:
  "n < 32 \<Longrightarrow>
   unicode_escape CHR ''0'' CHR ''0'' (hex_char (n div 16)) (hex_char (n mod 16)) = Some (char_of n)"
proof -
  assume n: "n < 32"
  have z: "hex_val CHR ''0'' = Some 0" by (simp add: hex_val_def)
  from n have "n div 16 < 16" by simp
  then have a: "hex_val (hex_char (n div 16)) = Some (n div 16)" by (rule hex_val_hex_char)
  have b: "hex_val (hex_char (n mod 16)) = Some (n mod 16)" by (rule hex_val_hex_char) simp
  from n have "n div 16 < 8" by simp
  with z a b show ?thesis by (simp add: unicode_escape_def)
qed

lemma parse_chars_quote: "parse_chars (dquote # rest) = Some ([], rest)"
  by (cases rest) simp_all

lemma parse_chars_escape:
  assumes "t \<noteq> []"
  shows "parse_chars (escape_char c @ t) = cons_chars c (parse_chars t)"
proof -
  obtain e r where t: "t = e # r" using assms by (cases t) auto
  consider (short) "c = CHR 0x08 \<or> c = CHR 0x09 \<or> c = CHR 0x0A \<or> c = CHR 0x0C \<or> c = CHR 0x0D
      \<or> c = dquote \<or> c = backslash"
    | (unicode) "\<not> (c = CHR 0x08 \<or> c = CHR 0x09 \<or> c = CHR 0x0A \<or> c = CHR 0x0C \<or> c = CHR 0x0D
      \<or> c = dquote \<or> c = backslash)" "(of_char c :: nat) < 32"
    | (raw) "\<not> (c = CHR 0x08 \<or> c = CHR 0x09 \<or> c = CHR 0x0A \<or> c = CHR 0x0C \<or> c = CHR 0x0D
      \<or> c = dquote \<or> c = backslash)" "\<not> (of_char c :: nat) < 32"
    by blast
  then show ?thesis
  proof cases
    case short
    then show ?thesis by (auto simp: escape_char_def unescape_def)
  next
    case unicode
    have u: "unescape CHR ''u'' = None" by (simp add: unescape_def)
    from unicode(2) unicode_escape_hex [of "of_char c"]
    have "unicode_escape CHR ''0'' CHR ''0'' (hex_char (of_char c div 16)) (hex_char (of_char c mod 16))
        = Some c" by simp
    with unicode u show ?thesis by (simp add: escape_char_def)
  next
    case raw
    then show ?thesis by (simp add: escape_char_def t)
  qed
qed

lemma parse_chars_escaped:
  "parse_chars (concat (map escape_char s) @ dquote # rest) = Some (s, rest)"
proof (induction s)
  case Nil
  show ?case by (simp add: parse_chars_quote)
next
  case (Cons c s)
  have "parse_chars (escape_char c @ (concat (map escape_char s) @ dquote # rest))
      = cons_chars c (parse_chars (concat (map escape_char s) @ dquote # rest))"
    by (rule parse_chars_escape) simp
  with Cons show ?case by (simp add: cons_chars_def)
qed

lemma parse_chars_QuoteJSONString:
  "QuoteJSONString s @ rest = dquote # concat (map escape_char s) @ dquote # rest"
  by (simp add: QuoteJSONString_def)

lemma digit_not_special:
  "is_digit c \<Longrightarrow> \<not> is_ws c \<and> c \<noteq> CHR '']'' \<and> c \<noteq> CHR ''}'' \<and> c \<noteq> CHR ''['' \<and> c \<noteq> CHR ''{''
     \<and> c \<noteq> dquote \<and> c \<noteq> CHR ''n'' \<and> c \<noteq> CHR ''t'' \<and> c \<noteq> CHR ''f'' \<and> c \<noteq> CHR ''-''"
  by (auto simp: is_digit_def is_ws_def)

lemma show_int_first:
  "\<exists>c cs. show_int i = c # cs \<and> (c = CHR ''-'' \<or> is_digit c)"
proof (cases "i < 0")
  case True
  then show ?thesis by (simp add: show_int_def)
next
  case False
  obtain c cs where s: "show_nat (nat i) = c # cs"
    using show_nat_nonempty [of "nat i"] by (cases "show_nat (nat i)") auto
  from show_nat_digits [of "nat i"] s have "is_digit c" by simp
  with False s show ?thesis by (simp add: show_int_def)
qed

lemma skip_ws_Cons: "\<not> is_ws c \<Longrightarrow> skip_ws (c # t) = c # t"
  by (simp add: skip_ws_def)

lemma not_ws:
  "\<not> is_ws CHR ''n''" "\<not> is_ws CHR ''t''" "\<not> is_ws CHR ''f''" "\<not> is_ws dquote"
  "\<not> is_ws CHR ''[''" "\<not> is_ws CHR ''{''" "\<not> is_ws CHR '',''" "\<not> is_ws CHR '']''"
  "\<not> is_ws CHR ''}''" "\<not> is_ws CHR '':''" "\<not> is_ws CHR ''-''"
  by (simp_all add: is_ws_def)

lemma first_of_number:
  assumes "c = CHR ''-'' \<or> is_digit c"
  shows "\<not> is_ws c \<and> c \<noteq> CHR '']'' \<and> c \<noteq> CHR ''}'' \<and> c \<noteq> CHR ''['' \<and> c \<noteq> CHR ''{''
     \<and> c \<noteq> dquote \<and> c \<noteq> CHR ''n'' \<and> c \<noteq> CHR ''t'' \<and> c \<noteq> CHR ''f''"
proof (cases "c = CHR ''-''")
  case True
  then show ?thesis by (simp add: not_ws)
next
  case False
  with assms have "is_digit c" by simp
  from digit_not_special [OF this] show ?thesis by simp
qed

lemma parse_value_null: "parse_value (Suc n) (''null'' @ rest) = Some (JNull, rest)"
  by (simp add: skip_ws_Cons not_ws starts_with_def)

lemma parse_value_true: "parse_value (Suc n) (''true'' @ rest) = Some (JBool True, rest)"
  by (simp add: skip_ws_Cons not_ws starts_with_def)

lemma parse_value_false: "parse_value (Suc n) (''false'' @ rest) = Some (JBool False, rest)"
  by (simp add: skip_ws_Cons not_ws starts_with_def)

lemma parse_value_number:
  assumes "no_digit_ahead rest" and "safe_integer i"
  shows "parse_value (Suc n) (show_int i @ rest) = Some (JNum i, rest)"
proof -
  obtain c cs where s: "show_int i = c # cs" and c: "c = CHR ''-'' \<or> is_digit c"
    using show_int_first by blast
  note sp = first_of_number [OF c]
  have "parse_number (c # cs @ rest) = Some (JNum i, rest)"
    using parse_number_show_int [OF assms] s by simp
  with sp show ?thesis
    by (simp add: s skip_ws_Cons starts_with_def)
qed

lemma parse_value_string:
  "parse_value (Suc n) (QuoteJSONString s @ rest) = Some (JStr s, rest)"
  by (simp add: QuoteJSONString_def skip_ws_Cons not_ws parse_chars_escaped)

lemma JSON_stringify_None: "JSON_stringify v = None \<longleftrightarrow> v = JUndefined"
  by (cases v) simp_all

lemma text_of_simps:
  "text_of JUndefined = ''null''"
  "text_of JNull = ''null''"
  "text_of (JBool b) = (if b then ''true'' else ''false'')"
  "text_of (JNum i) = show_int i"
  "text_of (JStr s) = QuoteJSONString s"
  "text_of (JArr xs) = ''['' @ join '','' (map text_of xs) @ '']''"
  by (simp_all add: text_of_def [abs_def])

lemma text_of_members:
  "\<forall>kv\<in>set kvs. snd kv \<noteq> JUndefined \<Longrightarrow>
   text_of (JObj kvs) =
     ''{'' @ join '','' (map (\<lambda>kv. QuoteJSONString (fst kv) @ '':'' @ text_of (snd kv)) kvs) @ ''}''"
proof -
  assume a: "\<forall>kv\<in>set kvs. snd kv \<noteq> JUndefined"
  have "concat (map (\<lambda>kv. case JSON_stringify (snd kv) of None \<Rightarrow> []
                           | Some t \<Rightarrow> [QuoteJSONString (fst kv) @ '':'' @ t]) kvs)
      = map (\<lambda>kv. QuoteJSONString (fst kv) @ '':'' @ text_of (snd kv)) kvs"
    using a
  proof (induction kvs)
    case Nil
    then show ?case by simp
  next
    case (Cons kv kvs)
    then have "snd kv \<noteq> JUndefined" by simp
    then have "JSON_stringify (snd kv) \<noteq> None" by (simp add: JSON_stringify_None)
    with Cons show ?case by (auto simp: text_of_def)
  qed
  then show ?thesis by (simp add: text_of_def)
qed

lemma text_of_object:
  "\<forall>kv\<in>set kvs. json_value (snd kv) \<Longrightarrow>
   text_of (JObj kvs) =
     ''{'' @ join '','' (map (\<lambda>kv. QuoteJSONString (fst kv) @ '':'' @ text_of (snd kv)) kvs) @ ''}''"
  by (rule text_of_members) auto

lemma text_of_first:
  assumes "\<And>d. v \<noteq> JDouble d"
  shows "\<exists>c t. text_of v = c # t \<and> \<not> is_ws c \<and> c \<noteq> CHR '']'' \<and> c \<noteq> CHR ''}''"
proof (cases v)
  case (JDouble d)
  with assms show ?thesis by blast
next
  case (JNum i)
  obtain c cs where s: "show_int i = c # cs" and c: "c = CHR ''-'' \<or> is_digit c"
    using show_int_first by blast
  from first_of_number [OF c] s JNum show ?thesis by (simp add: text_of_simps)
next
  case (JObj kvs)
  then show ?thesis by (simp add: text_of_def not_ws)
qed (simp_all add: text_of_simps not_ws QuoteJSONString_def)

lemma join_Cons_Cons: "join sep (y # z # zs) = y @ sep @ join sep (z # zs)"
  by (simp add: join_def)

lemma join_single: "join sep [y] = y"
  by (simp add: join_def)

lemma no_digit_ahead_punct:
  "no_digit_ahead (CHR '','' # t)" "no_digit_ahead (CHR '']'' # t)" "no_digit_ahead (CHR ''}'' # t)"
  "no_digit_ahead (newline # t)" "no_digit_ahead []"
  by (simp_all add: no_digit_ahead_def is_digit_def)

lemma parse_elements_texts:
  assumes "\<And>x n rest. x \<in> set xs \<Longrightarrow> fuel x \<le> n \<Longrightarrow> no_digit_ahead rest \<Longrightarrow>
             parse_value n (text_of x @ rest) = Some (x, rest)"
    and "xs \<noteq> []" and "sum_list (map (\<lambda>x. Suc (fuel x)) xs) \<le> n"
  shows "parse_elements n (join '','' (map text_of xs) @ CHR '']'' # rest) = Some (xs, rest)"
  using assms
proof (induction xs arbitrary: n)
  case Nil
  then show ?case by simp
next
  case (Cons x xs)
  from Cons.prems(3) obtain m where n: "n = Suc m" by (cases n) auto
  with Cons.prems(3) have fx: "fuel x \<le> m" and fxs: "sum_list (map (\<lambda>x. Suc (fuel x)) xs) \<le> m"
    by simp_all
  show ?case
  proof (cases xs)
    case Nil
    have "parse_value m (text_of x @ CHR '']'' # rest) = Some (x, CHR '']'' # rest)"
      by (rule Cons.prems(1)) (simp_all add: fx no_digit_ahead_punct)
    then show ?thesis
      by (simp add: n Nil join_single skip_ws_Cons not_ws)
  next
    case (Cons y ys)
    let ?tail = "join '','' (map text_of xs) @ CHR '']'' # rest"
    have a: "parse_value m (text_of x @ CHR '','' # ?tail) = Some (x, CHR '','' # ?tail)"
      by (rule Cons.prems(1)) (simp_all add: fx no_digit_ahead_punct)
    have b: "parse_elements m ?tail = Some (xs, rest)"
      by (rule Cons.IH) (use Cons.prems(1) fxs Cons in auto)
    have "join '','' (map text_of (x # xs)) @ CHR '']'' # rest = text_of x @ CHR '','' # ?tail"
      by (simp add: Cons join_Cons_Cons)
    with a b show ?thesis
      by (simp add: n skip_ws_Cons not_ws)
  qed
qed

lemma parse_members_texts:
  assumes "\<And>kv n rest. kv \<in> set kvs \<Longrightarrow> fuel (snd kv) \<le> n \<Longrightarrow> no_digit_ahead rest \<Longrightarrow>
             parse_value n (text_of (snd kv) @ rest) = Some (snd kv, rest)"
    and "kvs \<noteq> []" and "sum_list (map (\<lambda>kv. Suc (fuel (snd kv))) kvs) \<le> n"
  shows "parse_members n
           (join '','' (map (\<lambda>kv. QuoteJSONString (fst kv) @ '':'' @ text_of (snd kv)) kvs)
              @ CHR ''}'' # rest) = Some (kvs, rest)"
  using assms
proof (induction kvs arbitrary: n)
  case Nil
  then show ?case by simp
next
  case (Cons kv kvs)
  from Cons.prems(3) obtain m where n: "n = Suc m" by (cases n) auto
  with Cons.prems(3) have fx: "fuel (snd kv) \<le> m"
    and fxs: "sum_list (map (\<lambda>kv. Suc (fuel (snd kv))) kvs) \<le> m"
    by simp_all
  obtain k v where kv: "kv = (k, v)" by (cases kv)
  let ?member = "\<lambda>kv. QuoteJSONString (fst kv) @ '':'' @ text_of (snd kv)"
  show ?case
  proof (cases kvs)
    case Nil
    have "parse_value m (text_of v @ CHR ''}'' # rest) = Some (v, CHR ''}'' # rest)"
      using Cons.prems(1) [of kv m "CHR ''}'' # rest"] fx kv by (simp add: no_digit_ahead_punct)
    then show ?thesis
      by (simp add: n Nil kv join_single skip_ws_Cons not_ws QuoteJSONString_def
          parse_chars_escaped)
  next
    case (Cons y ys)
    let ?tail = "join '','' (map ?member kvs) @ CHR ''}'' # rest"
    have a: "parse_value m (text_of v @ CHR '','' # ?tail) = Some (v, CHR '','' # ?tail)"
      using Cons.prems(1) [of kv m "CHR '','' # ?tail"] fx kv by (simp add: no_digit_ahead_punct)
    have b: "parse_members m ?tail = Some (kvs, rest)"
      by (rule Cons.IH) (use Cons.prems(1) fxs Cons in auto)
    have "join '','' (map ?member (kv # kvs)) @ CHR ''}'' # rest
        = QuoteJSONString k @ CHR '':'' # text_of v @ CHR '','' # ?tail"
      by (simp add: Cons join_Cons_Cons kv)
    with a b show ?thesis
      by (simp add: n kv skip_ws_Cons not_ws QuoteJSONString_def parse_chars_escaped)
  qed
qed

lemma enumerable_snoc: "enumerable (ks @ [k]) \<longleftrightarrow> enumerable ks \<and> key_fits ks k"
  by (auto simp: enumerable_def list_all_iff nth_append)

lemma obj_insert_end:
  assumes "case array_index k of
             None \<Rightarrow> True
           | Some i \<Rightarrow> \<forall>k'\<in>set (map fst kvs). case array_index k' of None \<Rightarrow> False | Some j \<Rightarrow> j < i"
  shows "obj_insert k v kvs = kvs @ [(k, v)]"
  using assms
proof (induction kvs)
  case Nil
  then show ?case by simp
next
  case (Cons p kvs)
  obtain k' v' where p: "p = (k', v')" by (cases p)
  show ?case
  proof (cases "array_index k")
    case None
    with Cons p show ?thesis by simp
  next
    case (Some i)
    with Cons.prems p obtain j where j: "array_index k' = Some j" "j < i"
      by (auto split: option.splits)
    from Cons.prems Some have "case array_index k of
             None \<Rightarrow> True
           | Some i \<Rightarrow> \<forall>k'\<in>set (map fst kvs). case array_index k' of None \<Rightarrow> False | Some j \<Rightarrow> j < i"
      by simp
    from Cons.IH [OF this] Some j p show ?thesis by simp
  qed
qed

lemma obj_put_fits: "key_fits (map fst kvs) (fst kv) \<Longrightarrow> obj_put kvs kv = kvs @ [kv]"
  using obj_insert_end [where k = "fst kv" and kvs = kvs and v = "snd kv"]
  by (simp add: obj_put_def key_fits_def)

lemma foldl_obj_put: "enumerable (map fst kvs) \<Longrightarrow> foldl obj_put [] kvs = kvs"
proof (induction kvs rule: rev_induct)
  case Nil
  then show ?case by simp
next
  case (snoc kv kvs)
  then have "enumerable (map fst kvs)" "key_fits (map fst kvs) (fst kv)"
    by (simp_all add: enumerable_snoc)
  with snoc.IH show ?case by (simp add: obj_put_fits)
qed

lemma fuel_positive: "\<exists>m. fuel v = Suc m"
  by (cases v) simp_all

lemma parse_value_text:
  "json_value v \<Longrightarrow> fuel v \<le> n \<Longrightarrow> no_digit_ahead rest \<Longrightarrow>
   parse_value n (text_of v @ rest) = Some (v, rest)"
proof (induction v arbitrary: n rest)
  case JUndefined
  then show ?case by simp
next
  case (JDouble d)
  then show ?case by simp
next
  case JNull
  then obtain m where "n = Suc m" by (cases n) auto
  then show ?case by (simp only: text_of_simps parse_value_null)
next
  case (JBool b)
  then obtain m where "n = Suc m" by (cases n) auto
  then show ?case by (cases b) (simp_all only: text_of_simps parse_value_true parse_value_false if_True if_False)
next
  case (JNum i)
  then obtain m where "n = Suc m" by (cases n) auto
  with JNum show ?case by (simp only: text_of_simps parse_value_number json_value.simps)
next
  case (JStr s)
  then obtain m where "n = Suc m" by (cases n) auto
  then show ?case by (simp only: text_of_simps parse_value_string)
next
  case (JArr xs)
  from JArr.prems(2) obtain m where n: "n = Suc m"
    and f: "sum_list (map (\<lambda>x. Suc (fuel x)) xs) \<le> m" by (cases n) auto
  show ?case
  proof (cases xs)
    case Nil
    then show ?thesis
      by (simp add: n text_of_simps join_def skip_ws_Cons not_ws starts_with_def)
  next
    case (Cons y ys)
    obtain c t where ct: "text_of y = c # t" "\<not> is_ws c" "c \<noteq> CHR '']''"
      using text_of_first [of y] JArr.prems(1) Cons by fastforce
    define r where "r = join '','' (map text_of xs) @ CHR '']'' # rest"
    have "\<exists>u. r = c # u" by (cases ys) (simp_all add: r_def Cons ct join_def)
    then obtain u where u: "r = c # u" by blast
    have ns: "\<not> starts_with (skip_ws r) '']''"
      by (simp add: u skip_ws_Cons ct starts_with_def)
    have pe: "parse_elements m r = Some (xs, rest)"
      unfolding r_def
    proof (rule parse_elements_texts)
      fix x k rest'
      assume "x \<in> set xs" "fuel x \<le> k" "no_digit_ahead rest'"
      with JArr.IH [of x k rest'] JArr.prems(1)
      show "parse_value k (text_of x @ rest') = Some (x, rest')" by simp
    qed (use f Cons in auto)
    have "text_of (JArr xs) @ rest = CHR ''['' # r" by (simp add: text_of_simps r_def)
    with ns pe show ?thesis by (simp add: n skip_ws_Cons not_ws)
  qed
next
  case (JObj kvs)
  from JObj.prems(2) obtain m where n: "n = Suc m"
    and f: "sum_list (map (\<lambda>kv. Suc (fuel (snd kv))) kvs) \<le> m" by (cases n) auto
  from JObj.prems(1) have jv: "\<forall>kv\<in>set kvs. json_value (snd kv)"
    and en: "enumerable (map fst kvs)" by simp_all
  note tx = text_of_object [OF jv]
  show ?case
  proof (cases kvs)
    case Nil
    with tx have "text_of (JObj kvs) = ''{}''" by (simp add: join_def)
    then show ?thesis
      by (simp add: n Nil skip_ws_Cons not_ws starts_with_def)
  next
    case (Cons y ys)
    define r where "r = join '','' (map (\<lambda>kv. QuoteJSONString (fst kv) @ '':'' @ text_of (snd kv)) kvs)
        @ CHR ''}'' # rest"
    have "\<exists>u. r = dquote # u" by (cases ys) (simp_all add: r_def Cons join_def QuoteJSONString_def)
    then obtain u where u: "r = dquote # u" by blast
    have ns: "\<not> starts_with (skip_ws r) ''}''"
      by (simp add: u skip_ws_Cons not_ws starts_with_def)
    have pe: "parse_members m r = Some (kvs, rest)"
      unfolding r_def
    proof (rule parse_members_texts)
      fix kv k rest'
      assume a: "kv \<in> set kvs" "fuel (snd kv) \<le> k" "no_digit_ahead rest'"
      have "snd kv \<in> Basic_BNFs.snds kv" by (cases kv) simp
      with JObj.IH [of kv "snd kv" k rest'] a jv
      show "parse_value k (text_of (snd kv) @ rest') = Some (snd kv, rest')" by simp
    qed (use f Cons in auto)
    have "text_of (JObj kvs) @ rest = CHR ''{'' # r" by (simp add: tx r_def)
    with ns pe show ?thesis by (simp add: n skip_ws_Cons not_ws foldl_obj_put [OF en])
  qed
qed

lemma sum_fuel_le_join:
  "(\<And>y. y \<in> set ys \<Longrightarrow> f y \<le> length (g y)) \<Longrightarrow>
   sum_list (map (\<lambda>y. Suc (f y)) ys) \<le> Suc (length (join '','' (map g ys)))"
proof (induction ys)
  case Nil
  then show ?case by simp
next
  case (Cons y ys)
  show ?case
  proof (cases ys)
    case Nil
    with Cons.prems [of y] show ?thesis by (simp add: join_single)
  next
    case (Cons z zs)
    have "sum_list (map (\<lambda>y. Suc (f y)) ys) \<le> Suc (length (join '','' (map g ys)))"
      by (rule Cons.IH) (simp add: Cons.prems)
    moreover have "f y \<le> length (g y)" by (rule Cons.prems) simp
    moreover have "join '','' (map g (y # ys)) = g y @ '','' @ join '','' (map g ys)"
      by (simp add: Cons join_Cons_Cons)
    ultimately show ?thesis by simp
  qed
qed

lemma fuel_le_text: "json_value v \<Longrightarrow> fuel v \<le> length (text_of v)"
proof (induction v)
  case (JNum i)
  obtain c cs where "show_int i = c # cs" using show_int_first by blast
  then show ?case by (simp add: text_of_simps)
next
  case (JArr xs)
  have "sum_list (map (\<lambda>x. Suc (fuel x)) xs) \<le> Suc (length (join '','' (map text_of xs)))"
    by (rule sum_fuel_le_join) (use JArr in simp)
  then show ?case by (simp add: text_of_simps)
next
  case (JObj kvs)
  then have jv: "\<forall>kv\<in>set kvs. json_value (snd kv)" by simp
  have "sum_list (map (\<lambda>kv. Suc (fuel (snd kv))) kvs)
      \<le> Suc (length (join '','' (map (\<lambda>kv. QuoteJSONString (fst kv) @ '':'' @ text_of (snd kv)) kvs)))"
  proof (rule sum_fuel_le_join)
    fix kv assume a: "kv \<in> set kvs"
    have "snd kv \<in> Basic_BNFs.snds kv" by (cases kv) simp
    with JObj.IH [of kv "snd kv"] a jv have "fuel (snd kv) \<le> length (text_of (snd kv))" by simp
    then show "fuel (snd kv) \<le> length (QuoteJSONString (fst kv) @ '':'' @ text_of (snd kv))"
      by simp
  qed
  then show ?case by (simp add: text_of_object [OF jv])
qed (simp_all add: text_of_simps QuoteJSONString_def)

lemma printable_Nil: "printable []"
  by (simp add: printable_def)

lemma printable_Cons: "printable (c # t) \<longleftrightarrow> 32 \<le> (of_char c :: nat) \<and> printable t"
  by (simp add: printable_def)

lemma printable_append: "printable (t @ u) \<longleftrightarrow> printable t \<and> printable u"
  by (auto simp: printable_def)

lemma printable_concat: "(\<And>t. t \<in> set ts \<Longrightarrow> printable t) \<Longrightarrow> printable (concat ts)"
  by (induction ts) (simp_all add: printable_Nil printable_append)

lemma printable_join:
  assumes "printable sep" and "\<And>t. t \<in> set ts \<Longrightarrow> printable t"
  shows "printable (join sep ts)"
proof (cases ts)
  case Nil
  then show ?thesis by (simp add: join_def printable_Nil)
next
  case (Cons y ys)
  have "printable (concat (y # map (\<lambda>z. sep @ z) ys))"
    by (rule printable_concat) (use assms Cons in \<open>auto simp: printable_append\<close>)
  with Cons show ?thesis by (simp add: join_def)
qed

lemma hex_char_printable: "d < 16 \<Longrightarrow> 32 \<le> (of_char (hex_char d) :: nat)"
  by (simp add: hex_char_def)

lemma escape_char_printable: "printable (escape_char c)"
proof -
  have "(of_char c :: nat) div 16 < 16"
    using nat_of_char_less_256 [of c] by arith
  then have a: "32 \<le> (of_char (hex_char (of_char c div 16)) :: nat)" by (rule hex_char_printable)
  have b: "32 \<le> (of_char (hex_char (of_char c mod 16)) :: nat)" by (rule hex_char_printable) simp
  consider (short) "c = CHR 0x08 \<or> c = CHR 0x09 \<or> c = CHR 0x0A \<or> c = CHR 0x0C \<or> c = CHR 0x0D
      \<or> c = dquote \<or> c = backslash"
    | (unicode) "\<not> (c = CHR 0x08 \<or> c = CHR 0x09 \<or> c = CHR 0x0A \<or> c = CHR 0x0C \<or> c = CHR 0x0D
      \<or> c = dquote \<or> c = backslash)" "(of_char c :: nat) < 32"
    | (raw) "\<not> (c = CHR 0x08 \<or> c = CHR 0x09 \<or> c = CHR 0x0A \<or> c = CHR 0x0C \<or> c = CHR 0x0D
      \<or> c = dquote \<or> c = backslash)" "\<not> (of_char c :: nat) < 32"
    by blast
  then show ?thesis
  proof cases
    case short
    then show ?thesis by (auto simp: escape_char_def printable_def)
  next
    case unicode
    with a b show ?thesis by (simp add: escape_char_def printable_def)
  next
    case raw
    then show ?thesis by (simp add: escape_char_def printable_def)
  qed
qed

lemma QuoteJSONString_printable: "printable (QuoteJSONString s)"
proof -
  have "printable (concat (map escape_char s))"
    by (rule printable_concat) (auto simp: escape_char_printable)
  then show ?thesis
    by (simp add: QuoteJSONString_def printable_Cons printable_append printable_Nil)
qed

lemma show_nat_printable: "printable (show_nat n)"
proof -
  have "32 \<le> (of_char d :: nat)" if "d \<in> set (show_nat n)" for d
  proof -
    from that show_nat_digits [of n] have "is_digit d" by (simp add: list_all_iff)
    then show ?thesis by (simp add: is_digit_def)
  qed
  then show ?thesis by (simp add: printable_def)
qed

lemma show_int_printable: "printable (show_int i)"
  by (simp add: show_int_def printable_Cons show_nat_printable)

lemma printable_take: "printable t \<Longrightarrow> printable (take n t)"
  by (auto simp: printable_def dest: in_set_takeD)

lemma printable_drop: "printable t \<Longrightarrow> printable (drop n t)"
  by (auto simp: printable_def dest: in_set_dropD)

lemma printable_zeros: "printable (replicate n CHR ''0'')"
  by (simp add: printable_def)

lemma show_decimal_printable: "printable (show_decimal s n)"
proof -
  note p = show_nat_printable printable_take printable_drop printable_zeros
  have e: "printable ((if 0 \<le> n - 1 then ''+'' else ''-'') @ show_nat (nat \<bar>n - 1\<bar>))"
    by (simp add: printable_append printable_Cons printable_Nil p)
  show ?thesis
    unfolding show_decimal_def Let_def
    by (simp only: printable_append printable_Cons printable_Nil p e split: if_split) simp
qed

lemma show_double_printable: "printable (show_double d)"
proof (cases d)
  case (Decimal negative s n)
  then show ?thesis
    by (simp add: printable_append printable_Cons printable_Nil show_decimal_printable)
qed (simp_all add: printable_def)

lemma text_of_printable: "printable (text_of v)"
proof (induction v)
  case (JDouble d)
  have "printable ''null''" by (simp add: printable_def)
  with show_double_printable [of d] show ?case
    by (cases d) (simp_all add: text_of_def)
next
  case (JNum i)
  then show ?case by (simp add: text_of_simps show_int_printable)
next
  case (JStr s)
  then show ?case by (simp add: text_of_simps QuoteJSONString_printable)
next
  case (JArr xs)
  have "printable (join '','' (map text_of xs))"
    by (rule printable_join) (use JArr in \<open>auto simp: printable_Cons printable_Nil\<close>)
  then show ?case by (simp add: text_of_simps printable_Cons printable_append printable_Nil)
next
  case (JObj kvs)
  let ?ms = "concat (map (\<lambda>kv. case JSON_stringify (snd kv) of None \<Rightarrow> []
                           | Some t \<Rightarrow> [QuoteJSONString (fst kv) @ '':'' @ t]) kvs)"
  have m: "printable t" if "t \<in> set ?ms" for t
  proof -
    from that obtain kv where k1: "kv \<in> set kvs"
      and k2: "t \<in> set (case JSON_stringify (snd kv) of None \<Rightarrow> []
                           | Some t \<Rightarrow> [QuoteJSONString (fst kv) @ '':'' @ t])"
      by auto
    from k2 obtain u where k3: "JSON_stringify (snd kv) = Some u"
      and k4: "t = QuoteJSONString (fst kv) @ '':'' @ u"
      by (cases "JSON_stringify (snd kv)") simp_all
    have "snd kv \<in> Basic_BNFs.snds kv" by (cases kv) simp
    with JObj [of kv "snd kv"] k1 k3 have "printable u"
      by (simp add: text_of_def)
    with k4 QuoteJSONString_printable [of "fst kv"] show ?thesis
      by (simp add: printable_append printable_Cons printable_Nil)
  qed
  have "printable (join '','' ?ms)"
    by (rule printable_join) (use m in \<open>simp_all add: printable_Cons printable_Nil\<close>)
  then show ?case by (simp add: text_of_def printable_Cons printable_append printable_Nil)
qed (simp_all add: text_of_simps printable_def)

lemma JSON_parse_text:
  assumes "json_value v" and "skip_ws rest = []" and "no_digit_ahead rest"
  shows "JSON_parse (text_of v @ rest) = Some v"
proof -
  have "fuel v \<le> 2 * length (text_of v @ rest) + 1"
    using fuel_le_text [OF assms(1)] by simp
  from parse_value_text [OF assms(1) this assms(3)] assms(2)
  show ?thesis unfolding JSON_parse_def by (simp only: option.case prod.case refl if_True)
qed





section \<open>Cancelling what is not tracked\<close>

lemma escape_letter:
  "escape_char CHR ''f'' = ''f''" "escape_char CHR ''u'' = ''u''" "escape_char CHR ''n'' = ''n''"
  "escape_char CHR ''c'' = ''c''" "escape_char CHR ''a'' = ''a''" "escape_char CHR ''r'' = ''r''"
  "escape_char CHR ''g'' = ''g''" "escape_char CHR ''s'' = ''s''" "escape_char CHR ''e'' = ''e''"
  "escape_char CHR ''l'' = ''l''" "escape_char CHR ''R'' = ''R''" "escape_char CHR ''q'' = ''q''"
  "escape_char CHR ''t'' = ''t''"
  by (simp_all add: escape_char_def)

lemma cancel_line_text:
  "cancel_line i t = text_of (call i ''cancelRequest'' [JNum t]) @ [newline]"
proof -
  have "\<forall>kv\<in>set [(''func'', JStr ''cancelRequest''), (''args'', JArr [JNum t])]. snd kv \<noteq> JUndefined"
    by simp
  from text_of_members [OF this]
  have \<open>text_of (JObj [(''func'', JStr ''cancelRequest''), (''args'', JArr [JNum t])])
      = ''{"func":"cancelRequest","args":['' @ show_int t @ '']}''\<close>
    by (simp add: text_of_simps join_def QuoteJSONString_def escape_letter)
  then show ?thesis
    by (simp add: cancel_line_def call_def text_of_simps join_def)
qed

lemma json_value_cancel:
  "safe_integer i \<Longrightarrow> safe_integer t \<Longrightarrow> json_value (call i ''cancelRequest'' [JNum t])"
proof -
  have "enumerable [''func'', ''args'']" by code_simp
  then show "safe_integer i \<Longrightarrow> safe_integer t \<Longrightarrow> ?thesis" by (simp add: call_def)
qed

lemma JSON_parse_cancel_line:
  "safe_integer i \<Longrightarrow> safe_integer t \<Longrightarrow>
   JSON_parse (cancel_line i t) = Some (call i ''cancelRequest'' [JNum t])"
  unfolding cancel_line_text
  by (rule JSON_parse_text [OF json_value_cancel])
     (simp_all add: skip_ws_def is_ws_def no_digit_ahead_punct)

lemma show_int_ascii: "\<forall>c\<in>set (show_int i). (of_char c :: nat) < 128"
proof -
  have "(of_char c :: nat) < 128" if "c \<in> set (show_nat n)" for c n
  proof -
    from that show_nat_digits [of n] have "is_digit c" by (simp add: list_all_iff)
    then show ?thesis by (simp add: is_digit_def)
  qed
  then show ?thesis by (auto simp: show_int_def)
qed

lemma toString_cancel_line: "toString (cancel_line i t) = cancel_line i t"
proof (rule toString_ascii)
  note a = show_int_ascii [of i] show_int_ascii [of t]
  show "\<forall>c\<in>set (cancel_line i t). (of_char c :: nat) < 128"
    unfolding cancel_line_def set_append ball_Un
    by (intro conjI a) simp_all
qed

lemma feed_cancel_line: "feed [] (cancel_line i t) = ([cancel_line i t], [])"
proof -
  have "newline \<notin> set (text_of (call i ''cancelRequest'' [JNum t]))"
    using text_of_printable [of "call i ''cancelRequest'' [JNum t]"]
    by (auto simp: printable_def)
  moreover have "[] @ toString (cancel_line i t)
      = concat (map (\<lambda>l. l @ [newline]) [text_of (call i ''cancelRequest'' [JNum t])]) @ []"
    by (simp only: toString_cancel_line) (simp add: cancel_line_text)
  ultimately have "feed [] (cancel_line i t)
      = (map (\<lambda>l. l @ [newline]) [text_of (call i ''cancelRequest'' [JNum t])], [])"
    by (intro feed_lines) simp_all
  then show ?thesis by (simp add: cancel_line_text)
qed

lemma encode_false: "encode (JNum i, JBool False) = ''['' @ show_int i @ '',false]'' @ [newline]"
  by (simp add: encode_def join_def)

lemma cancelRequest_untracked:
  "request_target request = Inr target \<Longrightarrow> ongoingRequests s (ToPropertyKey target) = None \<Longrightarrow>
   cancelRequest request s = Inr (False, s)"
  by (simp add: cancelRequest_def)

text \<open>
  C5, as stated, fails before a provider is bound: the line that asks with id 7 to cancel
  request 3, for which nothing is tracked, is answered with \<^verbatim>\<open>[0,null]\<close>, not with
  \<^verbatim>\<open>[7,false]\<close>.
\<close>

theorem cancel_line_before_bind:
  \<open>ongoingRequests initial (ToPropertyKey (JNum 3)) = None
   \<and> outStream (handleInput JSON_parse (''[7,{"func":"cancelRequest","args":[3]}]'' @ [newline]) initial)
       = [''[0,null]'' @ [newline]]
   \<and> outStream (handleInput JSON_parse (''[7,{"func":"cancelRequest","args":[3]}]'' @ [newline]) initial)
       \<noteq> [''[7,false]'' @ [newline]]\<close>
proof -
  have l: \<open>''[7,{"func":"cancelRequest","args":[3]}]'' @ [newline] = cancel_line 7 3\<close>
    by (simp add: cancel_line_def show_int_examples)
  have a: "agent (initial\<lparr>buffer := []\<rparr>) = None" by (simp add: initial_def)
  have b: "buffer initial = []" by (simp add: initial_def)
  obtain rs s' where h: "handleLines JSON_parse [cancel_line 7 3] (initial\<lparr>buffer := []\<rparr>) = (rs, s')"
    by (cases "handleLines JSON_parse [cancel_line 7 3] (initial\<lparr>buffer := []\<rparr>)")
  have p: "JSON_parse (cancel_line 7 3) = Some (call 7 ''cancelRequest'' [JNum 3])"
    by (rule JSON_parse_cancel_line) (simp_all add: safe_integer_def)
  from handleLines_unbound [OF a, where lines = "[cancel_line 7 3]" and parse = JSON_parse]
  have "rs = [(JNum 0, JNull)]" and "outStream s' = []"
    unfolding h by (simp_all add: p initial_def)
  moreover have "handleInput JSON_parse (cancel_line 7 3) initial = fold thenSend rs s'"
    by (simp add: handleInput_def b feed_cancel_line h del: handleLines.simps)
  ultimately have "outStream (handleInput JSON_parse (cancel_line 7 3) initial) = [encode (JNum 0, JNull)]"
    by (simp add: thenSend_def sendResponse_def)
  then show ?thesis unfolding l by (simp add: encode_unbound initial_def)
qed

text \<open>
  C5, amended. The ids are integers of the safe range. When the registry holds no entry
  for the target id, \<^verbatim>\<open>cancelRequest\<close> returns false and changes nothing. While a provider
  is bound, the line \<^verbatim>\<open>[i,{"func":"cancelRequest","args":[t]}]\<close> arriving at a line boundary
  is answered with the line \<^verbatim>\<open>[i,false]\<close>, and the registry stays as it is.
\<close>

theorem cancel_untracked_false:
  assumes "safe_integer t" and "ongoingRequests s (ToPropertyKey (JNum t)) = None"
  shows "(\<forall>request. request_target request = Inr (JNum t) \<longrightarrow>
            cancelRequest request s = Inr (False, s))
       \<and> (safe_integer i \<longrightarrow> agent s \<noteq> None \<longrightarrow> buffer s = [] \<longrightarrow>
            outStream (handleInput JSON_parse (cancel_line i t) s)
              = outStream s @ [''['' @ show_int i @ '',false]'' @ [newline]]
            \<and> ongoingRequests (handleInput JSON_parse (cancel_line i t) s) = ongoingRequests s)"
proof -
  have c: "cancelRequest request s' = Inr (False, s')"
    if "request_target request = Inr (JNum t)" "ongoingRequests s' = ongoingRequests s"
    for request s'
    using that assms(2) by (simp add: cancelRequest_untracked)
  have w: "outStream (handleInput JSON_parse (cancel_line i t) s)
              = outStream s @ [''['' @ show_int i @ '',false]'' @ [newline]]
            \<and> ongoingRequests (handleInput JSON_parse (cancel_line i t) s) = ongoingRequests s"
    if b: "agent s \<noteq> None" "buffer s = []" and i: "safe_integer i"
  proof -
    let ?q = "call i ''cancelRequest'' [JNum t]"
    let ?s1 = "s\<lparr>buffer := [], logger := logger s @ [ReceivedRequest ?q]\<rparr>"
    from b obtain a where a: "agent ?s1 = Some a" by auto
    have p: "JSON_parse (cancel_line i t) = Some ?q"
      using i assms(1) by (rule JSON_parse_cancel_line)
    have "cancelRequest ?q ?s1 = Inr (False, ?s1)"
      by (rule c) (simp_all add: call_parts)
    with a have "handleRequest ?q ?s1 = (Returned (JNum i, JBool False), ?s1)"
      by (intro handleRequest_cancel) (simp_all add: call_parts)
    then have "handleInput JSON_parse (cancel_line i t) s = thenSend (JNum i, JBool False) ?s1"
      by (simp add: handleInput_def b feed_cancel_line p)
    then show ?thesis
      by (simp add: thenSend_def sendResponse_def encode_false)
  qed
  from c w show ?thesis by simp
qed

theorem cancel_untracked_false_witness:
  \<open>safe_integer 3 \<and> safe_integer 7
   \<and> cancel_line 7 3 = ''[7,{"func":"cancelRequest","args":[3]}]'' @ [newline]
   \<and> cancelRequest (call 7 ''cancelRequest'' [JNum 3]) (bind [] sample initial)
       = Inr (False, bind [] sample initial)
   \<and> outStream (handleInput JSON_parse (cancel_line 7 3) (bind [] sample initial)) = [''[7,false]'' @ [newline]]\<close>
proof -
  have l: \<open>cancel_line 7 3 = ''[7,{"func":"cancelRequest","args":[3]}]'' @ [newline]\<close>
    by (simp add: cancel_line_def show_int_examples)
  have r: "ongoingRequests (bind [] sample initial) (ToPropertyKey (JNum 3)) = None"
    by (simp add: bound_sample)
  have t: "safe_integer 3" and i: "safe_integer 7" by (simp_all add: safe_integer_def)
  from cancel_untracked_false [OF t r, of 7] l t i show ?thesis
    by (simp add: bound_sample call_parts show_int_examples)
qed

end
